theory Spec2Isabelle
  imports Main "HOL-Library.Sublist"
begin

section \<open>Values shared by the whole script\<close>

text \<open>
  The script \<^verbatim>\<open>main.py\<close> reads a text file of Google Drive folder links, counts the
  files below every linked folder, and mirrors the folders into a local directory.
  Python exceptions are values of \<open>error\<close>; a call that may raise returns \<open>error + 'a\<close>
  with \<open>Inl\<close> for the exception.
\<close>

datatype error =
    IndexError
  | ValueError
  | FileNotFoundError
  | FileExistsError
  | NotADirectoryError
  | IsADirectoryError
  | FileNotDownloadableError
  | ApiRequestError

type_synonym bytes = string

text \<open>
  One constructor for every \<^verbatim>\<open>logging\<close> call of the script; the argument is the folder
  identifier, the title or the line the message names (the text of a caught exception
  and the path of a downloaded file are left out).
\<close>

datatype event =
    InfoAuthenticated
  | ErrAuthentication
  | ErrLinksFileNotFound
  | WarnInvalidLink string
  | ErrNoValidIds
  | InfoCounting
  | InfoTotal int
  | ErrCountList string
  | InfoProcessingFolder string
  | ErrFolderMetadata string
  | ErrFileList string
  | InfoSkipped string
  | InfoDownloaded string
  | InfoExported string
  | WarnNoExportLink string
  | WarnNotDownloadable string
  | ErrProcess string

datatype level = INFO | WARNING | ERROR

fun level_of :: "event \<Rightarrow> level" where
  "level_of InfoAuthenticated = INFO"
| "level_of ErrAuthentication = ERROR"
| "level_of ErrLinksFileNotFound = ERROR"
| "level_of (WarnInvalidLink l) = WARNING"
| "level_of ErrNoValidIds = ERROR"
| "level_of InfoCounting = INFO"
| "level_of (InfoTotal n) = INFO"
| "level_of (ErrCountList i) = ERROR"
| "level_of (InfoProcessingFolder t) = INFO"
| "level_of (ErrFolderMetadata i) = ERROR"
| "level_of (ErrFileList i) = ERROR"
| "level_of (InfoSkipped t) = INFO"
| "level_of (InfoDownloaded t) = INFO"
| "level_of (InfoExported t) = INFO"
| "level_of (WarnNoExportLink t) = WARNING"
| "level_of (WarnNotDownloadable t) = WARNING"
| "level_of (ErrProcess t) = ERROR"

section \<open>Python string operations\<close>

text \<open>\<^verbatim>\<open>sub in s\<close> on strings: \<open>sub\<close> occurs in \<open>s\<close> as a contiguous block.\<close>

fun str_contains :: "string \<Rightarrow> string \<Rightarrow> bool" where
  "str_contains [] sub = (sub = [])"
| "str_contains (c # cs) sub = (prefix sub (c # cs) \<or> str_contains cs sub)"

text \<open>
  \<^verbatim>\<open>s.split(sep)\<close> for a non-empty separator: the occurrences of \<open>sep\<close> are found from the
  left and do not overlap; the result always has at least one part. (Python raises
  ValueError on an empty separator; the script only splits on the literals
  \<^verbatim>\<open>'/folders/'\<close> and \<^verbatim>\<open>'?'\<close>, and on \<^verbatim>\<open>'/'\<close> inside pathlib.)
\<close>

fun split_str :: "string \<Rightarrow> string \<Rightarrow> string list" where
  "split_str sep [] = [[]]"
| "split_str sep (c # cs) =
     (if prefix sep (c # cs) then [] # split_str sep (drop (length sep - 1) cs)
      else (case split_str sep cs of
              [] \<Rightarrow> [[c]]
            | p # ps \<Rightarrow> (c # p) # ps))"

text \<open>\<^verbatim>\<open>xs[i]\<close> for a non-negative literal index: IndexError out of range.\<close>

definition list_item :: "'a list \<Rightarrow> nat \<Rightarrow> error + 'a" where
  "list_item xs i = (if i < length xs then Inr (xs ! i) else Inl IndexError)"

section \<open>Link Extractor: \<^verbatim>\<open>extract_folder_ids\<close>\<close>

definition folder_marker :: string where
  "folder_marker = ''drive.google.com/drive/folders/''"

text \<open>Line 202: \<^verbatim>\<open>line.split('/folders/')[1].split('?')[0]\<close>.\<close>

definition folder_id_of_line :: "string \<Rightarrow> error + string" where
  "folder_id_of_line line =
     (case list_item (split_str ''/folders/'' line) 1 of
        Inl e \<Rightarrow> Inl e
      | Inr seg \<Rightarrow> list_item (split_str ''?'' seg) 0)"

text \<open>
  The loop of lines 199-205 over the lines that \<^verbatim>\<open>readlines()\<close> returned (each line keeps
  its terminator). The state is the list \<^verbatim>\<open>folder_ids\<close> and the log. The only exception
  the body can raise is IndexError, which the handler turns into a warning.
\<close>

fun extract_lines :: "string list \<Rightarrow> string list \<times> event list \<Rightarrow> string list \<times> event list" where
  "extract_lines [] acc = acc"
| "extract_lines (line # lines) (folder_ids, lg) =
     (if str_contains line folder_marker then
        (case folder_id_of_line line of
           Inr folder_id \<Rightarrow> extract_lines lines (folder_ids @ [folder_id], lg)
         | Inl e \<Rightarrow> extract_lines lines (folder_ids, lg @ [WarnInvalidLink line]))
      else extract_lines lines (folder_ids, lg))"

text \<open>
  \<^verbatim>\<open>extract_folder_ids\<close>: the argument is what opening and reading the links file gave,
  \<open>None\<close> for FileNotFoundError (lines 191-196).
\<close>

definition extract_folder_ids :: "string list option \<Rightarrow> event list \<Rightarrow> string list \<times> event list" where
  "extract_folder_ids file lg =
     (case file of
        None \<Rightarrow> ([], lg @ [ErrLinksFileNotFound])
      | Some lines \<Rightarrow> extract_lines lines ([], lg))"

section \<open>Local paths and the local filesystem\<close>

text \<open>
  A \<^verbatim>\<open>pathlib.Path\<close> on POSIX: whether it is anchored at the root, and its components.
  \<open>parse_path\<close> is \<^verbatim>\<open>Path(s)\<close>: empty components and \<^verbatim>\<open>.\<close> components are dropped,
  \<^verbatim>\<open>..\<close> is kept as it is. (A path with exactly two leading slashes, which pathlib keeps
  apart, is read as an absolute path.)
\<close>

datatype ppath = PPath (pp_abs: bool) (pp_parts: "string list")

definition parse_path :: "string \<Rightarrow> ppath" where
  "parse_path s =
     PPath (prefix ''/'' s) (filter (\<lambda>p. p \<noteq> [] \<and> p \<noteq> ''.'') (split_str ''/'' s))"

text \<open>\<^verbatim>\<open>'/'.join(parts)\<close>.\<close>

fun join_slash :: "string list \<Rightarrow> string" where
  "join_slash [] = []"
| "join_slash [p] = p"
| "join_slash (p # q # ps) = p @ ''/'' @ join_slash (q # ps)"

text \<open>\<^verbatim>\<open>str(path)\<close>.\<close>

definition path_str :: "ppath \<Rightarrow> string" where
  "path_str p =
     (if pp_abs p then ''/'' @ join_slash (pp_parts p)
      else if pp_parts p = [] then ''.''
      else join_slash (pp_parts p))"

text \<open>\<^verbatim>\<open>path / s\<close>: an absolute right operand replaces the left one.\<close>

definition path_div :: "ppath \<Rightarrow> string \<Rightarrow> ppath" where
  "path_div p s =
     (let q = parse_path s
      in if pp_abs q then q else PPath (pp_abs p) (pp_parts p @ pp_parts q))"

text \<open>
  \<^verbatim>\<open>PurePath.suffix\<close> of a final component: the text from the last dot on, when that dot
  is neither the first nor the last character of the name (\<^verbatim>\<open>0 < i < len(name) - 1\<close> for
  \<^verbatim>\<open>i = name.rfind('.')\<close>).
\<close>

definition name_suffix :: "string \<Rightarrow> string" where
  "name_suffix name =
     (let k = length (takeWhile (\<lambda>c. c \<noteq> CHR ''.'') (rev name)) in
      if CHR ''.'' \<in> set name \<and> 0 < length name - 1 - k \<and> 0 < k
      then drop (length name - 1 - k) name
      else [])"

text \<open>
  \<^verbatim>\<open>path.with_suffix('.pdf')\<close>: ValueError on a path with an empty name, otherwise the
  old suffix of the final component (if any) is cut off and \<^verbatim>\<open>.pdf\<close> is appended.
\<close>

definition with_suffix_pdf :: "ppath \<Rightarrow> error + ppath" where
  "with_suffix_pdf p =
     (case rev (pp_parts p) of
        [] \<Rightarrow> Inl ValueError
      | name # rparent \<Rightarrow>
          Inr (PPath (pp_abs p)
                 (rev rparent @ [take (length name - length (name_suffix name)) name @ ''.pdf''])))"

text \<open>
  The local filesystem: what is stored at each path. The current directory and the root
  (paths without components) are directories that always exist. Paths are compared
  component by component: \<^verbatim>\<open>..\<close> and symbolic links are not resolved. The operations
  keep a filesystem closed under parents (whatever is stored lies in a directory) when
  it was so before.
\<close>

datatype fnode = RegularFile bytes | Directory

type_synonym filesystem = "ppath \<Rightarrow> fnode option"

definition fs_lookup :: "filesystem \<Rightarrow> ppath \<Rightarrow> fnode option" where
  "fs_lookup fs p = (if pp_parts p = [] then Some Directory else fs p)"

definition path_exists :: "filesystem \<Rightarrow> ppath \<Rightarrow> bool" where
  "path_exists fs p = (fs_lookup fs p \<noteq> None)"

definition is_dir :: "filesystem \<Rightarrow> ppath \<Rightarrow> bool" where
  "is_dir fs p = (fs_lookup fs p = Some Directory)"

definition parent :: "ppath \<Rightarrow> ppath" where
  "parent p = PPath (pp_abs p) (butlast (pp_parts p))"

text \<open>\<^verbatim>\<open>os.mkdir(p)\<close>: creates one directory below an existing directory.\<close>

definition os_mkdir :: "filesystem \<Rightarrow> ppath \<Rightarrow> error + filesystem" where
  "os_mkdir fs p =
     (if pp_parts p = [] then Inl FileExistsError
      else (case fs_lookup fs (parent p) of
              None \<Rightarrow> Inl FileNotFoundError
            | Some (RegularFile b) \<Rightarrow> Inl NotADirectoryError
            | Some Directory \<Rightarrow>
                (case fs p of
                   Some n \<Rightarrow> Inl FileExistsError
                 | None \<Rightarrow> Inr (fs(p \<mapsto> Directory)))))"

text \<open>
  \<^verbatim>\<open>path.mkdir(parents=True, exist_ok=True)\<close>, as pathlib writes it: try \<^verbatim>\<open>os.mkdir\<close>; on
  FileNotFoundError create the parent in the same way and try again; on any other OSError
  re-raise unless the path is a directory. The components are passed in reverse, so that
  the parent is the tail.
\<close>

fun mkdir_rev :: "filesystem \<Rightarrow> bool \<Rightarrow> string list \<Rightarrow> error + filesystem" where
  "mkdir_rev fs a [] = Inr fs"
| "mkdir_rev fs a (n # rest) =
     (let p = PPath a (rev (n # rest)) in
      case os_mkdir fs p of
        Inr fs' \<Rightarrow> Inr fs'
      | Inl e \<Rightarrow>
          if e = FileNotFoundError then
            (case mkdir_rev fs a rest of
               Inl e' \<Rightarrow> Inl e'
             | Inr fs1 \<Rightarrow>
                 (case os_mkdir fs1 p of
                    Inr fs2 \<Rightarrow> Inr fs2
                  | Inl e2 \<Rightarrow>
                      if e2 \<noteq> FileNotFoundError \<and> is_dir fs1 p then Inr fs1 else Inl e2))
          else if is_dir fs p then Inr fs
          else Inl e)"

definition mkdir_parents :: "filesystem \<Rightarrow> ppath \<Rightarrow> error + filesystem" where
  "mkdir_parents fs p = mkdir_rev fs (pp_abs p) (rev (pp_parts p))"

text \<open>\<^verbatim>\<open>open(p, 'wb')\<close> followed by one \<^verbatim>\<open>write\<close>: creates or replaces a regular file.\<close>

definition write_file :: "filesystem \<Rightarrow> ppath \<Rightarrow> bytes \<Rightarrow> error + filesystem" where
  "write_file fs p content =
     (if pp_parts p = [] then Inl IsADirectoryError
      else (case fs_lookup fs (parent p) of
              None \<Rightarrow> Inl FileNotFoundError
            | Some (RegularFile b) \<Rightarrow> Inl NotADirectoryError
            | Some Directory \<Rightarrow>
                (case fs p of
                   Some Directory \<Rightarrow> Inl IsADirectoryError
                 | _ \<Rightarrow> Inr (fs(p \<mapsto> RegularFile content)))))"

section \<open>The remote drive\<close>

text \<open>
  One entry of a listing (a \<^verbatim>\<open>GoogleDriveFile\<close>): the keys the script reads.
  \<open>downloadUrl\<close> and \<open>exportLinks\<close> are \<open>None\<close> when the key is absent; \<open>exportLinks\<close> is
  a dictionary from MIME type to link.
\<close>

record file_entry =
  file_id :: string
  title :: string
  mimeType :: string
  downloadUrl :: "string option"
  exportLinks :: "(string \<times> string) list option"

text \<open>
  The authenticated drive, as the three remote calls the script makes:
  \<^verbatim>\<open>drive.CreateFile({'id': i})['title']\<close>, \<^verbatim>\<open>drive.ListFile({'q': ...}).GetList()\<close> for the
  children of a folder, and an HTTP request for a content link.
\<close>

record drive =
  folder_title :: "string \<Rightarrow> error + string"
  list_children :: "string \<Rightarrow> error + file_entry list"
  http_request :: "string \<Rightarrow> error + bytes"

definition folder_mime :: string where
  "folder_mime = ''application/vnd.google-apps.folder''"

section \<open>File Counter: \<^verbatim>\<open>count_files\<close>\<close>

text \<open>
  The loop of lines 75-80; \<open>rec\<close> is the recursive call. The state is \<^verbatim>\<open>count\<close> and the
  log. \<open>None\<close> means that the recursion did not return within the fuel.
\<close>

fun count_loop ::
  "(string \<Rightarrow> event list \<Rightarrow> (int \<times> event list) option) \<Rightarrow> file_entry list \<Rightarrow> int \<Rightarrow> event list
     \<Rightarrow> (int \<times> event list) option" where
  "count_loop rec [] count lg = Some (count, lg)"
| "count_loop rec (file # file_list) count lg =
     (if mimeType file = folder_mime then
        (case rec (file_id file) lg of
           None \<Rightarrow> None
         | Some (c, lg') \<Rightarrow> count_loop rec file_list (count + c) lg')
      else count_loop rec file_list (count + 1) lg)"

text \<open>
  \<^verbatim>\<open>count_files(folder_id, drive)\<close>. Python recurses without a bound, so the model takes
  fuel: the number of nested calls it may make.
\<close>

fun count_files :: "nat \<Rightarrow> drive \<Rightarrow> string \<Rightarrow> event list \<Rightarrow> (int \<times> event list) option" where
  "count_files 0 drv = (\<lambda>folder_id lg. None)"
| "count_files (Suc n) drv = (\<lambda>folder_id lg.
     case list_children drv folder_id of
       Inl e \<Rightarrow> Some (0, lg @ [ErrCountList folder_id])
     | Inr file_list \<Rightarrow> count_loop (count_files n drv) file_list 0 lg)"

section \<open>Folder Mirror Walker: \<^verbatim>\<open>download_google_drive_folder\<close>\<close>

text \<open>
  What the walker changes: the local filesystem, the global progress bar (its counter
  \<^verbatim>\<open>n\<close> and its \<^verbatim>\<open>total\<close>) and the log. The walker is only called after
  \<^verbatim>\<open>google_drive_bulk_download\<close> has created the progress bar.
\<close>

record world =
  disk :: filesystem
  progress_n :: int
  progress_total :: int
  logs :: "event list"

definition log_event :: "event \<Rightarrow> world \<Rightarrow> world" where
  "log_event ev w = w\<lparr>logs := logs w @ [ev]\<rparr>"

text \<open>\<^verbatim>\<open>progress_bar.update(1)\<close>.\<close>

definition progress_update :: "world \<Rightarrow> world" where
  "progress_update w = w\<lparr>progress_n := progress_n w + 1\<rparr>"

datatype completion = Returned | Raised error

text \<open>
  \<^verbatim>\<open>file.GetContentFile(str(file_path))\<close> of PyDrive: fetch the content behind
  \<^verbatim>\<open>downloadUrl\<close> (FileNotDownloadableError when the link is empty), then open the local
  file and write it.
\<close>

definition get_content_file :: "drive \<Rightarrow> string \<Rightarrow> ppath \<Rightarrow> filesystem \<Rightarrow> error + filesystem" where
  "get_content_file drv url file_path fs =
     (if url = [] then Inl FileNotDownloadableError
      else (case http_request drv url of
              Inl e \<Rightarrow> Inl e
            | Inr content \<Rightarrow> write_file fs file_path content))"

text \<open>
  Lines 128-142, the part of the per-file block after the existence check: what it does
  when it raises nothing (\<open>Inr\<close>), or the exception (\<open>Inl\<close>; nothing has been changed
  then).
\<close>

definition fetch_file :: "drive \<Rightarrow> ppath \<Rightarrow> file_entry \<Rightarrow> world \<Rightarrow> error + world" where
  "fetch_file drv file_path file w =
     (case downloadUrl file of
        Some url \<Rightarrow>
          (case get_content_file drv url file_path (disk w) of
             Inl e \<Rightarrow> Inl e
           | Inr fs' \<Rightarrow> Inr (log_event (InfoDownloaded (title file)) (w\<lparr>disk := fs'\<rparr>)))
      | None \<Rightarrow>
          (case exportLinks file of
             Some links \<Rightarrow>
               (case map_of links ''application/pdf'' of
                  None \<Rightarrow> Inr (log_event (WarnNoExportLink (title file)) w)
                | Some export_link \<Rightarrow>
                    if export_link = [] then Inr (log_event (WarnNoExportLink (title file)) w)
                    else (case http_request drv export_link of
                            Inl e \<Rightarrow> Inl e
                          | Inr content \<Rightarrow>
                              (case with_suffix_pdf file_path of
                                 Inl e \<Rightarrow> Inl e
                               | Inr pdf_path \<Rightarrow>
                                   (case write_file (disk w) pdf_path content of
                                      Inl e \<Rightarrow> Inl e
                                    | Inr fs' \<Rightarrow>
                                        Inr (log_event (InfoExported (title file))
                                               (w\<lparr>disk := fs'\<rparr>))))))
           | None \<Rightarrow> Inr (log_event (WarnNotDownloadable (title file)) w)))"

text \<open>
  Lines 119-146 for one listing entry that is not a folder, with the handler of line 145.
\<close>

definition process_file :: "drive \<Rightarrow> ppath \<Rightarrow> file_entry \<Rightarrow> world \<Rightarrow> world" where
  "process_file drv folder_output_path file w =
     (let file_path = path_div folder_output_path (title file) in
      if path_exists (disk w) file_path then
        progress_update (log_event (InfoSkipped (title file)) w)
      else (case fetch_file drv file_path file w of
              Inr w' \<Rightarrow> progress_update w'
            | Inl e \<Rightarrow> log_event (ErrProcess (title file)) w))"

text \<open>
  The loop of lines 114-146; \<open>rec\<close> is the recursive call. An exception that leaves the
  recursive call is caught by the handler of line 145, so the loop itself never raises.
\<close>

fun walk_children ::
  "(string \<Rightarrow> ppath \<Rightarrow> world \<Rightarrow> (completion \<times> world) option) \<Rightarrow> drive \<Rightarrow> ppath
     \<Rightarrow> file_entry list \<Rightarrow> world \<Rightarrow> world option" where
  "walk_children rec drv folder_output_path [] w = Some w"
| "walk_children rec drv folder_output_path (file # file_list) w =
     (if mimeType file = folder_mime then
        (case rec (file_id file) folder_output_path w of
           None \<Rightarrow> None
         | Some (Returned, w') \<Rightarrow> walk_children rec drv folder_output_path file_list w'
         | Some (Raised e, w') \<Rightarrow>
             walk_children rec drv folder_output_path file_list
               (log_event (ErrProcess (title file)) w'))
      else walk_children rec drv folder_output_path file_list
             (process_file drv folder_output_path file w))"

text \<open>
  Lines 102-106: the directory the folder is mirrored into. The test of line 104 is
  Python's \<^verbatim>\<open>in\<close> on strings. The result is the directory and the filesystem after
  \<^verbatim>\<open>mkdir\<close>, or the exception \<^verbatim>\<open>mkdir\<close> raised.
\<close>

definition target_directory :: "string \<Rightarrow> ppath \<Rightarrow> filesystem \<Rightarrow> error + ppath \<times> filesystem" where
  "target_directory folder_name output_directory fs =
     (if \<not> str_contains (path_str output_directory) folder_name then
        (case mkdir_parents fs (path_div output_directory folder_name) of
           Inl e \<Rightarrow> Inl e
         | Inr fs' \<Rightarrow> Inr (path_div output_directory folder_name, fs'))
      else Inr (output_directory, fs))"

text \<open>
  \<^verbatim>\<open>download_google_drive_folder(folder_id, output_directory, drive)\<close>, with fuel for the
  depth of the recursion.
\<close>

fun download_google_drive_folder ::
  "nat \<Rightarrow> drive \<Rightarrow> string \<Rightarrow> ppath \<Rightarrow> world \<Rightarrow> (completion \<times> world) option" where
  "download_google_drive_folder 0 drv = (\<lambda>folder_id output_directory w. None)"
| "download_google_drive_folder (Suc n) drv = (\<lambda>folder_id output_directory w.
     case folder_title drv folder_id of
       Inl e \<Rightarrow> Some (Returned, log_event (ErrFolderMetadata folder_id) w)
     | Inr folder_name \<Rightarrow>
         (let w1 = log_event (InfoProcessingFolder folder_name) w in
          case target_directory folder_name output_directory (disk w1) of
            Inl e \<Rightarrow> Some (Raised e, w1)
          | Inr (folder_output_path, fs') \<Rightarrow>
              (let w2 = w1\<lparr>disk := fs'\<rparr> in
               case list_children drv folder_id of
                 Inl e \<Rightarrow> Some (Returned, log_event (ErrFileList folder_id) w2)
               | Inr file_list \<Rightarrow>
                   map_option (Pair Returned)
                     (walk_children (download_google_drive_folder n drv) drv
                        folder_output_path file_list w2))))"

section \<open>Orchestrator: \<^verbatim>\<open>google_drive_bulk_download\<close>\<close>

text \<open>Line 167: \<^verbatim>\<open>sum(count_files(folder_id, drive) for folder_id in folder_ids)\<close>.\<close>

fun count_roots ::
  "nat \<Rightarrow> drive \<Rightarrow> string list \<Rightarrow> int \<Rightarrow> event list \<Rightarrow> (int \<times> event list) option" where
  "count_roots fuel drv [] acc lg = Some (acc, lg)"
| "count_roots fuel drv (folder_id # folder_ids) acc lg =
     (case count_files fuel drv folder_id lg of
        None \<Rightarrow> None
      | Some (c, lg') \<Rightarrow> count_roots fuel drv folder_ids (acc + c) lg')"

text \<open>Lines 175-176: an exception that leaves the walker ends the run.\<close>

fun walk_roots ::
  "nat \<Rightarrow> drive \<Rightarrow> string list \<Rightarrow> ppath \<Rightarrow> world \<Rightarrow> (completion \<times> world) option" where
  "walk_roots fuel drv [] output_directory w = Some (Returned, w)"
| "walk_roots fuel drv (folder_id # folder_ids) output_directory w =
     (case download_google_drive_folder fuel drv folder_id output_directory w of
        None \<Rightarrow> None
      | Some (Raised e, w') \<Rightarrow> Some (Raised e, w')
      | Some (Returned, w') \<Rightarrow> walk_roots fuel drv folder_ids output_directory w')"

text \<open>
  \<^verbatim>\<open>google_drive_bulk_download\<close>: \<open>auth\<close> is what \<^verbatim>\<open>authenticate_drive()\<close> gave (it logs and
  re-raises a failure), \<open>links_file\<close> what reading the links file gave.
\<close>

definition google_drive_bulk_download ::
  "nat \<Rightarrow> error + drive \<Rightarrow> string list option \<Rightarrow> string \<Rightarrow> world \<Rightarrow> (completion \<times> world) option" where
  "google_drive_bulk_download fuel auth links_file output_directory_path w =
     (case auth of
        Inl e \<Rightarrow> Some (Raised e, log_event ErrAuthentication w)
      | Inr drv \<Rightarrow>
          (case extract_folder_ids links_file (logs w @ [InfoAuthenticated]) of
             (folder_ids, lg) \<Rightarrow>
               if folder_ids = [] then Some (Returned, w\<lparr>logs := lg @ [ErrNoValidIds]\<rparr>)
               else (case count_roots fuel drv folder_ids 0 (lg @ [InfoCounting]) of
                       None \<Rightarrow> None
                     | Some (total_files, lg') \<Rightarrow>
                         walk_roots fuel drv folder_ids (parse_path output_directory_path)
                           (w\<lparr>progress_n := 0, progress_total := total_files,
                              logs := lg' @ [InfoTotal total_files]\<rparr>))))"

section \<open>The File Counter as the specification words it\<close>

text \<open>
  The specification's count of a listing: every file child contributes exactly 1, every
  folder child contributes the count of its own listing, and a folder itself contributes
  nothing. A count exists only when every listing below succeeds and the nesting ends.
\<close>

inductive children_files :: "drive \<Rightarrow> file_entry list \<Rightarrow> int \<Rightarrow> bool" for drv where
  no_child: "children_files drv [] 0"
| file_child:
    "mimeType f \<noteq> folder_mime \<Longrightarrow> children_files drv cs n
       \<Longrightarrow> children_files drv (f # cs) (1 + n)"
| folder_child:
    "mimeType f = folder_mime \<Longrightarrow> list_children drv (file_id f) = Inr sub
       \<Longrightarrow> children_files drv sub m \<Longrightarrow> children_files drv cs n
       \<Longrightarrow> children_files drv (f # cs) (m + n)"

definition descendant_files :: "drive \<Rightarrow> string \<Rightarrow> int \<Rightarrow> bool" where
  "descendant_files drv folder_id n \<longleftrightarrow>
     (\<exists>cs. list_children drv folder_id = Inr cs \<and> children_files drv cs n)"

text \<open>
  The descendant file entries themselves, for counting them: a file entry below a
  listing is named by the positions to follow, one per nesting level.
\<close>

inductive file_at :: "drive \<Rightarrow> file_entry list \<Rightarrow> nat list \<Rightarrow> bool" for drv where
  file_here:
    "k < length cs \<Longrightarrow> mimeType (cs ! k) \<noteq> folder_mime \<Longrightarrow> file_at drv cs [k]"
| file_below:
    "k < length cs \<Longrightarrow> mimeType (cs ! k) = folder_mime
       \<Longrightarrow> list_children drv (file_id (cs ! k)) = Inr sub
       \<Longrightarrow> file_at drv sub p \<Longrightarrow> file_at drv cs (k # p)"

text \<open>The same position seen from a listing with one more entry in front.\<close>

definition later_sibling :: "nat list \<Rightarrow> nat list" where
  "later_sibling p = (case p of [] \<Rightarrow> [] | k # q \<Rightarrow> Suc k # q)"

definition file_positions :: "drive \<Rightarrow> string \<Rightarrow> nat list set" where
  "file_positions drv folder_id =
     {p. \<exists>cs. list_children drv folder_id = Inr cs \<and> file_at drv cs p}"

text \<open>
  An acyclic remote tree with a lister that succeeds everywhere: the folder has a
  listing, and so has, again and again, every folder in it, the nesting being finite.
\<close>

inductive listable :: "drive \<Rightarrow> string \<Rightarrow> bool" for drv where
  listable_folder:
    "list_children drv folder_id = Inr cs
       \<Longrightarrow> (\<And>f. f \<in> set cs \<Longrightarrow> mimeType f = folder_mime \<Longrightarrow> listable drv (file_id f))
       \<Longrightarrow> listable drv folder_id"

section \<open>Runs without a logged error, and acyclic drives\<close>

text \<open>No line of the log is at level ERROR.\<close>

definition quiet :: "event list \<Rightarrow> bool" where
  "quiet evs = list_all (\<lambda>ev. level_of ev \<noteq> ERROR) evs"

text \<open>
  The remote hierarchy below a folder is acyclic: following folder entries of successful
  listings always ends.
\<close>

inductive finite_below :: "drive \<Rightarrow> string \<Rightarrow> bool" for drv where
  finite_belowI:
    "(\<And>cs f. list_children drv folder_id = Inr cs \<Longrightarrow> f \<in> set cs
         \<Longrightarrow> mimeType f = folder_mime \<Longrightarrow> finite_below drv (file_id f))
       \<Longrightarrow> finite_below drv folder_id"

section \<open>Example inputs\<close>

definition plain_file :: "string \<Rightarrow> string \<Rightarrow> string \<Rightarrow> file_entry" where
  "plain_file i t url =
     \<lparr>file_id = i, title = t, mimeType = ''text/plain'', downloadUrl = Some url,
      exportLinks = None\<rparr>"

definition doc_file :: "string \<Rightarrow> string \<Rightarrow> (string \<times> string) list \<Rightarrow> file_entry" where
  "doc_file i t links =
     \<lparr>file_id = i, title = t, mimeType = ''application/vnd.google-apps.document'',
      downloadUrl = None, exportLinks = Some links\<rparr>"

definition folder_entry :: "string \<Rightarrow> string \<Rightarrow> file_entry" where
  "folder_entry i t =
     \<lparr>file_id = i, title = t, mimeType = folder_mime, downloadUrl = None, exportLinks = None\<rparr>"

definition empty_world :: world where
  "empty_world = \<lparr>disk = Map.empty, progress_n = 0, progress_total = 0, logs = []\<rparr>"

text \<open>A folder titled \<^verbatim>\<open>Files\<close> that holds one text file.\<close>

definition files_drive :: drive where
  "files_drive =
     \<lparr>folder_title = (\<lambda>i. if i = ''F'' then Inr ''Files'' else Inl ApiRequestError),
      list_children =
        (\<lambda>i. if i = ''F'' then Inr [plain_file ''a'' ''a.txt'' ''u1'']
             else Inl ApiRequestError),
      http_request = (\<lambda>u. if u = ''u1'' then Inr ''hello'' else Inl ApiRequestError)\<rparr>"

text \<open>A folder titled \<^verbatim>\<open>Reports\<close> that holds one Google document with a PDF export link.\<close>

definition docs_drive :: drive where
  "docs_drive =
     \<lparr>folder_title = (\<lambda>i. if i = ''R'' then Inr ''Reports'' else Inl ApiRequestError),
      list_children =
        (\<lambda>i. if i = ''R'' then Inr [doc_file ''d'' ''Notes'' [(''application/pdf'', ''e1'')]]
             else Inl ApiRequestError),
      http_request = (\<lambda>u. if u = ''e1'' then Inr ''%PDF'' else Inl ApiRequestError)\<rparr>"

text \<open>
  A folder titled \<^verbatim>\<open>Reports\<close> that holds a text file and a subfolder \<^verbatim>\<open>Sub\<close> with another
  text file.
\<close>

definition nested_drive :: drive where
  "nested_drive =
     \<lparr>folder_title =
        (\<lambda>i. if i = ''R'' then Inr ''Reports'' else if i = ''S'' then Inr ''Sub''
             else Inl ApiRequestError),
      list_children =
        (\<lambda>i. if i = ''R'' then Inr [plain_file ''a'' ''a.txt'' ''u1'', folder_entry ''S'' ''Sub'']
             else if i = ''S'' then Inr [plain_file ''x'' ''x.txt'' ''u2'']
             else Inl ApiRequestError),
      http_request =
        (\<lambda>u. if u = ''u1'' then Inr ''hello'' else if u = ''u2'' then Inr ''world''
             else Inl ApiRequestError)\<rparr>"

text \<open>
  The same shape, but the first file and the subfolder are both titled \<^verbatim>\<open>A\<close>; every
  remote call on it succeeds.
\<close>

definition clash_drive :: drive where
  "clash_drive =
     \<lparr>folder_title =
        (\<lambda>i. if i = ''R'' then Inr ''Reports'' else if i = ''S'' then Inr ''A''
             else Inl ApiRequestError),
      list_children =
        (\<lambda>i. if i = ''R'' then Inr [plain_file ''a'' ''A'' ''u1'', folder_entry ''S'' ''A'']
             else if i = ''S'' then Inr [plain_file ''x'' ''x.txt'' ''u2'']
             else Inl ApiRequestError),
      http_request =
        (\<lambda>u. if u = ''u1'' then Inr ''hello'' else if u = ''u2'' then Inr ''world''
             else Inl ApiRequestError)\<rparr>"

text \<open>
  A folder \<^verbatim>\<open>Reports\<close> with a subfolder whose metadata cannot be fetched (\<^verbatim>\<open>B\<close>), a
  subfolder whose listing fails (\<^verbatim>\<open>L\<close>, titled \<^verbatim>\<open>Locked\<close>), and a text file whose content
  cannot be fetched.
\<close>

definition broken_drive :: drive where
  "broken_drive =
     \<lparr>folder_title =
        (\<lambda>i. if i = ''R'' then Inr ''Reports'' else if i = ''L'' then Inr ''Locked''
             else Inl ApiRequestError),
      list_children =
        (\<lambda>i. if i = ''R'' then
               Inr [folder_entry ''B'' ''Broken'', folder_entry ''L'' ''Locked'',
                    plain_file ''z'' ''z.bin'' ''bad'']
             else Inl ApiRequestError),
      http_request = (\<lambda>u. Inl ApiRequestError)\<rparr>"

text \<open>A disk on which the output directory and the mirror of \<^verbatim>\<open>Reports\<close> exist.\<close>

definition reports_world :: world where
  "reports_world =
     \<lparr>disk = [PPath False [''out''] \<mapsto> Directory, PPath False [''out'', ''Reports''] \<mapsto> Directory],
      progress_n = 0, progress_total = 1, logs = []\<rparr>"


text \<open>The same disk with a directory where the export of \<^verbatim>\<open>Notes\<close> would be written.\<close>

definition pdf_dir_world :: world where
  "pdf_dir_world =
     \<lparr>disk = [PPath False [''out''] \<mapsto> Directory, PPath False [''out'', ''Reports''] \<mapsto> Directory,
              PPath False [''out'', ''Reports'', ''Notes.pdf''] \<mapsto> Directory],
      progress_n = 0, progress_total = 1, logs = []\<rparr>"

text \<open>What a call of the walker with fuel n guarantees, as the loops assume it.\<close>

definition walk_accounts :: "nat \<Rightarrow> drive \<Rightarrow> bool" where
  "walk_accounts n drv \<longleftrightarrow>
     (\<forall>i out w c w'. download_google_drive_folder n drv i out w = Some (c, w') \<longrightarrow>
        progress_total w' = progress_total w \<and>
        (\<exists>evs. logs w' = logs w @ evs \<and>
           (c = Returned \<and> quiet evs \<longrightarrow>
              (\<forall>lg. count_files n drv i lg = Some (progress_n w' - progress_n w, lg)))))"

section \<open>Unfolding rules for evaluation\<close>

lemmas example_defs =
  plain_file_def doc_file_def folder_entry_def empty_world_def folder_mime_def

lemmas path_defs =
  parse_path_def path_str_def path_div_def parent_def fs_lookup_def path_exists_def is_dir_def
  os_mkdir_def mkdir_parents_def write_file_def with_suffix_pdf_def name_suffix_def

lemmas walker_defs =
  target_directory_def process_file_def fetch_file_def get_content_file_def
  log_event_def progress_update_def

section \<open>Facts about the string operations\<close>

lemma str_contains_iff: "str_contains s sub \<longleftrightarrow> (\<exists>pre post. s = pre @ sub @ post)"
proof (induction s)
  case Nil
  then show ?case by auto
next
  case (Cons c cs)
  show ?case
  proof
    assume "str_contains (c # cs) sub"
    then consider "prefix sub (c # cs)" | "str_contains cs sub" by auto
    then show "\<exists>pre post. c # cs = pre @ sub @ post"
    proof cases
      case 1
      then obtain post where "c # cs = sub @ post" by (auto simp: prefix_def)
      then have "c # cs = [] @ sub @ post" by simp
      then show ?thesis by blast
    next
      case 2
      with Cons.IH obtain pre post where "cs = pre @ sub @ post" by blast
      then have "c # cs = (c # pre) @ sub @ post" by simp
      then show ?thesis by blast
    qed
  next
    assume "\<exists>pre post. c # cs = pre @ sub @ post"
    then obtain pre post where eq: "c # cs = pre @ sub @ post" by blast
    show "str_contains (c # cs) sub"
    proof (cases pre)
      case Nil
      with eq have "prefix sub (c # cs)" by (simp add: prefix_def)
      then show ?thesis by simp
    next
      case (Cons p pre')
      with eq have "cs = pre' @ sub @ post" by simp
      with Cons.IH have "str_contains cs sub" by blast
      then show ?thesis by simp
    qed
  qed
qed

lemma split_str_nonempty: "split_str sep s \<noteq> []"
  by (induction sep s rule: split_str.induct) (auto split: list.splits)

lemma split_str_two_parts:
  "sep \<noteq> [] \<Longrightarrow> str_contains s sep \<Longrightarrow> 2 \<le> length (split_str sep s)"
proof (induction s)
  case Nil
  then show ?case by simp
next
  case (Cons c cs)
  show ?case
  proof (cases "prefix sep (c # cs)")
    case True
    have "split_str sep (drop (length sep - 1) cs) \<noteq> []" by (rule split_str_nonempty)
    then have "1 \<le> length (split_str sep (drop (length sep - 1) cs))"
      by (cases "split_str sep (drop (length sep - 1) cs)") auto
    with True show ?thesis by simp
  next
    case False
    with Cons.prems have "str_contains cs sep" by simp
    with Cons have "2 \<le> length (split_str sep cs)" by blast
    with False show ?thesis by (auto split: list.splits)
  qed
qed

lemma prefix_of_short_append:
  assumes "prefix xs (ys @ zs)" and "length xs \<le> length ys"
  shows "prefix xs ys"
proof -
  from assms(1) consider "prefix xs ys" | us where "xs = ys @ us"
    by (auto simp: prefix_append)
  then show ?thesis
  proof cases
    case 1
    then show ?thesis .
  next
    case 2
    with assms(2) have "us = []" by simp
    with 2 show ?thesis by simp
  qed
qed

text \<open>
  When the first occurrence of the separator starts right after \<open>pre\<close>, the first part of
  the split is \<open>pre\<close> and the rest of the split is the split of what follows.
\<close>

lemma split_str_first_occurrence:
  assumes "sep \<noteq> []" and "\<not> str_contains (pre @ butlast sep) sep"
  shows "split_str sep (pre @ sep @ rest) = pre # split_str sep rest"
  using assms(2)
proof (induction pre)
  case Nil
  from assms(1) obtain c sep' where sep: "sep = c # sep'" by (cases sep) auto
  then show ?case by simp
next
  case (Cons p pre')
  have not_here: "\<not> prefix sep (p # pre' @ sep @ rest)"
  proof
    assume pr: "prefix sep (p # pre' @ sep @ rest)"
    from assms(1) have "sep = butlast sep @ [last sep]" by simp
    then have "p # pre' @ sep @ rest = ((p # pre') @ butlast sep) @ ([last sep] @ rest)"
      by (metis append.assoc append_Cons)
    with pr have "prefix sep (((p # pre') @ butlast sep) @ ([last sep] @ rest))" by simp
    moreover from assms(1) have "length sep \<le> length ((p # pre') @ butlast sep)" by simp
    ultimately have "prefix sep ((p # pre') @ butlast sep)"
      by (rule prefix_of_short_append)
    with Cons.prems show False by simp
  qed
  from Cons.prems have "\<not> str_contains (pre' @ butlast sep) sep" by simp
  with Cons.IH have "split_str sep (pre' @ sep @ rest) = pre' # split_str sep rest" by blast
  with not_here show ?case by simp
qed

lemma split_str_no_occurrence: "\<not> str_contains s sep \<Longrightarrow> split_str sep s = [s]"
  by (induction s) auto

lemma split_question_head:
  "\<exists>ps. split_str ''?'' s = takeWhile (\<lambda>c. c \<noteq> CHR ''?'') s # ps"
  by (induction s) (auto split: list.splits)

section \<open>Link Extractor: every marker line gives one identifier\<close>

lemma marker_has_folders:
  assumes "str_contains line folder_marker"
  shows "str_contains line ''/folders/''"
proof -
  from assms obtain pre post where "line = pre @ folder_marker @ post"
    by (auto simp: str_contains_iff)
  then have "line = (pre @ ''drive.google.com/drive'') @ ''/folders/'' @ post"
    by (simp add: folder_marker_def)
  then show ?thesis unfolding str_contains_iff by blast
qed

lemma folder_id_of_line_succeeds:
  assumes "str_contains line folder_marker"
  shows "\<exists>folder_id. folder_id_of_line line = Inr folder_id"
proof -
  have "2 \<le> length (split_str ''/folders/'' line)"
    by (rule split_str_two_parts) (use assms marker_has_folders in auto)
  moreover have "0 < length (split_str ''?'' seg)" for seg
    using split_str_nonempty [of "''?''" seg] by simp
  ultimately show ?thesis
    by (simp add: folder_id_of_line_def list_item_def)
qed

text \<open>
  Over a whole file: the log is left as it was (no warning is ever written), and the
  number of identifiers appended is the number of lines with the marker.
\<close>

lemma extract_lines_no_warning:
  "snd (extract_lines lines (ids, lg)) = lg \<and>
   length (fst (extract_lines lines (ids, lg))) =
     length ids + length (filter (\<lambda>l. str_contains l folder_marker) lines)"
proof (induction lines arbitrary: ids)
  case Nil
  then show ?case by simp
next
  case (Cons line lines)
  show ?case
  proof (cases "str_contains line folder_marker")
    case True
    then obtain fid where "folder_id_of_line line = Inr fid"
      using folder_id_of_line_succeeds by blast
    with True Cons.IH [of "ids @ [fid]"] show ?thesis by simp
  next
    case False
    with Cons.IH [of ids] show ?thesis by simp
  qed
qed

text \<open>
  When no \<^verbatim>\<open>/folders/\<close> occurs before the one of the marker, the identifier is taken from
  the text after the marker: its part before the next \<^verbatim>\<open>/folders/\<close>, cut at the first
  \<^verbatim>\<open>?\<close>.
\<close>

lemma folder_id_first_marker:
  assumes "line = pre @ folder_marker @ rest"
    and "\<not> str_contains (pre @ ''drive.google.com/drive/folders'') ''/folders/''"
  shows "folder_id_of_line line =
           Inr (takeWhile (\<lambda>c. c \<noteq> CHR ''?'') (hd (split_str ''/folders/'' rest)))"
proof -
  have "line = (pre @ ''drive.google.com/drive'') @ ''/folders/'' @ rest"
    using assms(1) by (simp add: folder_marker_def)
  moreover have
    "\<not> str_contains ((pre @ ''drive.google.com/drive'') @ butlast ''/folders/'') ''/folders/''"
    using assms(2) by simp
  ultimately have first:
    "split_str ''/folders/'' line = (pre @ ''drive.google.com/drive'') # split_str ''/folders/'' rest"
    using split_str_first_occurrence [of "''/folders/''" "pre @ ''drive.google.com/drive''" rest]
    by simp
  obtain p ps where parts: "split_str ''/folders/'' rest = p # ps"
    using split_str_nonempty [of "''/folders/''" rest]
    by (cases "split_str ''/folders/'' rest") auto
  obtain qs where "split_str ''?'' p = takeWhile (\<lambda>c. c \<noteq> CHR ''?'') p # qs"
    using split_question_head by blast
  with first parts show ?thesis
    by (simp add: folder_id_of_line_def list_item_def)
qed

text \<open>
  Claim C4, at a line of the links file that ends with its terminator and has no \<^verbatim>\<open>?\<close>:
  the identifier the extractor returns still carries the line terminator, where the
  claim says the identifier is the text up to the end of the line without it.
\<close>

theorem extract_keeps_line_terminator:
  "extract_folder_ids (Some [''https://drive.google.com/drive/folders/ABC\<newline>'']) []
     = ([''ABC\<newline>''], [])"
  by (simp add: extract_folder_ids_def folder_id_of_line_def list_item_def folder_marker_def)

text \<open>
  Claim C10 as stated fails in its remark on the empty identifier: in the first line the
  marker is immediately followed by \<^verbatim>\<open>?\<close>, yet an earlier \<^verbatim>\<open>/folders/\<close> makes the
  extractor return other text; in the second the marker ends the line, and the
  identifier is the line terminator.
\<close>

theorem marker_then_question_counterexample:
  "''x/folders/y drive.google.com/drive/folders/?a'' = ''x/folders/y '' @ folder_marker @ ''?a''
   \<and> folder_id_of_line ''x/folders/y drive.google.com/drive/folders/?a''
       = Inr ''y drive.google.com/drive''
   \<and> folder_id_of_line ''https://drive.google.com/drive/folders/\<newline>'' = Inr ''\<newline>''"
  by (simp add: folder_id_of_line_def list_item_def folder_marker_def)

text \<open>
  Claim C10, amended: for every line that contains the marker, the extractor appends
  exactly one identifier and writes no warning (the IndexError branch cannot be taken);
  the identifier is the empty string when the marker is immediately followed by \<^verbatim>\<open>?\<close>
  or by the end of the string, provided no \<^verbatim>\<open>/folders/\<close> occurs before the one of the
  marker.
\<close>

theorem marker_line_gives_one_id:
  assumes "str_contains line folder_marker"
  shows "\<exists>folder_id.
           folder_id_of_line line = Inr folder_id
         \<and> extract_lines [line] (ids, lg) = (ids @ [folder_id], lg)
         \<and> (\<forall>pre rest.
              line = pre @ folder_marker @ rest
              \<and> \<not> str_contains (pre @ ''drive.google.com/drive/folders'') ''/folders/''
              \<and> (rest = [] \<or> prefix ''?'' rest)
              \<longrightarrow> folder_id = [])"
proof -
  from assms obtain folder_id where ok: "folder_id_of_line line = Inr folder_id"
    using folder_id_of_line_succeeds by blast
  have "folder_id = []"
    if "line = pre @ folder_marker @ rest"
      and "\<not> str_contains (pre @ ''drive.google.com/drive/folders'') ''/folders/''"
      and "rest = [] \<or> prefix ''?'' rest" for pre rest
  proof -
    from that(3) have "takeWhile (\<lambda>c. c \<noteq> CHR ''?'') (hd (split_str ''/folders/'' rest)) = []"
      by (cases rest) (auto split: list.splits)
    with folder_id_first_marker [OF that(1) that(2)] ok show ?thesis by simp
  qed
  with ok assms show ?thesis by auto
qed

text \<open>The theorem at a link whose identifier is empty.\<close>

theorem marker_line_gives_one_id_witness:
  "str_contains ''https://drive.google.com/drive/folders/?usp=sharing'' folder_marker
   \<and> extract_lines [''https://drive.google.com/drive/folders/?usp=sharing''] ([], [])
       = ([[]], [])"
proof -
  have h: "str_contains ''https://drive.google.com/drive/folders/?usp=sharing'' folder_marker"
    by (simp add: folder_marker_def)
  have eq: "''https://drive.google.com/drive/folders/?usp=sharing''
              = ''https://'' @ folder_marker @ ''?usp=sharing''"
    by (simp add: folder_marker_def)
  have first: "\<not> str_contains (''https://'' @ ''drive.google.com/drive/folders'') ''/folders/''"
    by simp
  from marker_line_gives_one_id [OF h, of "[]" "[]"] obtain folder_id where
    one: "extract_lines [''https://drive.google.com/drive/folders/?usp=sharing''] ([], [])
            = ([] @ [folder_id], [])"
    and empty: "\<forall>pre rest.
        ''https://drive.google.com/drive/folders/?usp=sharing'' = pre @ folder_marker @ rest
        \<and> \<not> str_contains (pre @ ''drive.google.com/drive/folders'') ''/folders/''
        \<and> (rest = [] \<or> prefix ''?'' rest)
        \<longrightarrow> folder_id = []"
    by blast
  from empty eq first have "folder_id = []"
    by (metis Cons_prefix_Cons Nil_prefix)
  with one h show ?thesis by simp
qed

section \<open>Folder Mirror Walker: the per-file block\<close>

lemma fetch_file_logs:
  "fetch_file drv file_path f w = Inr w' \<Longrightarrow>
     progress_n w' = progress_n w \<and>
     (\<exists>ev. logs w' = logs w @ [ev] \<and>
           ev \<in> {InfoDownloaded (title f), InfoExported (title f),
                  WarnNoExportLink (title f), WarnNotDownloadable (title f)})"
  by (auto simp: fetch_file_def log_event_def split: option.splits sum.splits if_splits)

text \<open>
  Claim C3, amended: the block for one file entry writes exactly one log line, and the
  progress counter is advanced exactly once for every outcome but one: skip because the
  file exists, download, export and both warnings advance it by 1; when the fetch or the
  write raises (the error line of the handler) the counter is left as it was, because
  the block raised before it reached the \<^verbatim>\<open>update\<close> at its end.
\<close>

theorem progress_once_unless_exception:
  "\<exists>ev. logs (process_file drv dir f w) = logs w @ [ev]
      \<and> ev \<in> {InfoSkipped (title f), InfoDownloaded (title f), InfoExported (title f),
               WarnNoExportLink (title f), WarnNotDownloadable (title f), ErrProcess (title f)}
      \<and> (ev = ErrProcess (title f) \<longleftrightarrow>
           \<not> path_exists (disk w) (path_div dir (title f))
           \<and> (\<exists>e. fetch_file drv (path_div dir (title f)) f w = Inl e))
      \<and> progress_n (process_file drv dir f w)
           = (if ev = ErrProcess (title f) then progress_n w else progress_n w + 1)"
proof (cases "path_exists (disk w) (path_div dir (title f))")
  case True
  then show ?thesis
    by (simp add: process_file_def log_event_def progress_update_def)
next
  case False
  show ?thesis
  proof (cases "fetch_file drv (path_div dir (title f)) f w")
    case (Inl e)
    with False show ?thesis
      by (simp add: process_file_def log_event_def)
  next
    case (Inr w')
    from fetch_file_logs [OF Inr] obtain ev where
      "progress_n w' = progress_n w" "logs w' = logs w @ [ev]"
      "ev \<in> {InfoDownloaded (title f), InfoExported (title f),
              WarnNoExportLink (title f), WarnNotDownloadable (title f)}"
      by blast
    with False Inr show ?thesis
      by (auto simp: process_file_def progress_update_def)
  qed
qed

text \<open>
  Claim C3 as stated fails for a per-file exception: the content of \<^verbatim>\<open>z.bin\<close> cannot be
  fetched, the handler logs the error, and the counter stays at 0.
\<close>

theorem failed_fetch_counterexample:
  "process_file broken_drive (PPath False [''out'']) (plain_file ''z'' ''z.bin'' ''bad'') empty_world
     = empty_world\<lparr>logs := [ErrProcess ''z.bin'']\<rparr>
   \<and> progress_n (process_file broken_drive (PPath False [''out''])
         (plain_file ''z'' ''z.bin'' ''bad'') empty_world) = 0"
  by (simp add: broken_drive_def example_defs path_defs walker_defs)

lemma export_step:
  assumes "downloadUrl f = None" and "exportLinks f = Some links"
    and "\<not> path_exists (disk w) (path_div dir (title f))"
    and "map_of links ''application/pdf'' = Some export_link" and "export_link \<noteq> []"
    and "http_request drv export_link = Inr content"
    and "with_suffix_pdf (path_div dir (title f)) = Inr pdf_path"
    and "write_file (disk w) pdf_path content = Inr fs'"
  shows "process_file drv dir f w
           = w\<lparr>disk := fs', progress_n := progress_n w + 1,
               logs := logs w @ [InfoExported (title f)]\<rparr>"
  using assms by (simp add: process_file_def fetch_file_def log_event_def progress_update_def)

lemma write_file_ok:
  assumes "is_dir fs (parent p)" and "pp_parts p \<noteq> []" and "fs p \<noteq> Some Directory"
  shows "write_file fs p content = Inr (fs(p \<mapsto> RegularFile content))"
  using assms by (auto simp: write_file_def is_dir_def split: option.splits fnode.splits)

lemma with_suffix_pdf_parts: "with_suffix_pdf p = Inr q \<Longrightarrow> pp_parts q \<noteq> []"
  by (auto simp: with_suffix_pdf_def split: list.splits)

lemma str_contains_char: "str_contains s [c] \<longleftrightarrow> c \<in> set s"
  by (induction s) auto

lemma path_div_plain_title:
  assumes "CHR ''/'' \<notin> set t" and "t \<noteq> []" and "t \<noteq> ''.''"
  shows "path_div dir t = PPath (pp_abs dir) (pp_parts dir @ [t])"
proof -
  from assms(1) have "\<not> str_contains t ''/''" by (simp add: str_contains_char)
  then have "split_str ''/'' t = [t]" by (rule split_str_no_occurrence)
  moreover from assms(1) have "\<not> prefix ''/'' t" by (cases t) auto
  ultimately show ?thesis using assms(2,3) by (simp add: path_div_def parse_path_def)
qed

lemma name_suffix_ext:
  assumes "stem \<noteq> []" and "ext \<noteq> []" and "CHR ''.'' \<notin> set ext"
  shows "name_suffix (stem @ ''.'' @ ext) = ''.'' @ ext"
proof -
  have "rev (stem @ ''.'' @ ext) = rev ext @ CHR ''.'' # rev stem" by simp
  moreover have "takeWhile (\<lambda>c. c \<noteq> CHR ''.'') (rev ext @ CHR ''.'' # rev stem) = rev ext"
    using assms(3) by (auto simp: takeWhile_tail)
  ultimately have k: "length (takeWhile (\<lambda>c. c \<noteq> CHR ''.'') (rev (stem @ ''.'' @ ext))) = length ext"
    by simp
  have len: "length (stem @ ''.'' @ ext) - 1 - length ext = length stem" by simp
  show ?thesis
    unfolding name_suffix_def Let_def k len using assms(1,2) by simp
qed

lemma name_suffix_none: "CHR ''.'' \<notin> set name \<Longrightarrow> name_suffix name = []"
  by (simp add: name_suffix_def Let_def)

lemma with_suffix_pdf_ext:
  assumes "stem \<noteq> []" and "ext \<noteq> []" and "CHR ''.'' \<notin> set ext"
  shows "with_suffix_pdf (PPath a (ps @ [stem @ CHR ''.'' # ext])) = Inr (PPath a (ps @ [stem @ ''.pdf'']))"
  using name_suffix_ext [OF assms] by (simp add: with_suffix_pdf_def)

lemma with_suffix_pdf_plain:
  assumes "CHR ''.'' \<notin> set name"
  shows "with_suffix_pdf (PPath a (ps @ [name])) = Inr (PPath a (ps @ [name @ ''.pdf'']))"
  using name_suffix_none [OF assms] by (simp add: with_suffix_pdf_def)

text \<open>
  Claim C7 as stated fails when the export is fetched but the local file cannot be
  opened. Both entries below have no direct-download reference, a PDF export link whose
  request succeeds, and nothing at the path of their display name. For the title
  \<^verbatim>\<open>Q1/Notes\<close> the target lies in a directory \<^verbatim>\<open>Q1\<close> that does not exist; for the title
  \<^verbatim>\<open>Notes\<close> on the second disk the target \<^verbatim>\<open>Notes.pdf\<close> is a directory. In both runs
  \<^verbatim>\<open>open\<close> raises, the handler of line 145 logs the error, nothing is written and the
  counter is not advanced.
\<close>

theorem export_write_fails_counterexample:
  "downloadUrl (doc_file ''d'' ''Q1/Notes'' [(''application/pdf'', ''e1'')]) = None
   \<and> exportLinks (doc_file ''d'' ''Q1/Notes'' [(''application/pdf'', ''e1'')])
       = Some [(''application/pdf'', ''e1'')]
   \<and> http_request docs_drive ''e1'' = Inr ''%PDF''
   \<and> \<not> path_exists (disk reports_world)
         (path_div (PPath False [''out'', ''Reports'']) ''Q1/Notes'')
   \<and> process_file docs_drive (PPath False [''out'', ''Reports''])
       (doc_file ''d'' ''Q1/Notes'' [(''application/pdf'', ''e1'')]) reports_world
     = reports_world\<lparr>logs := [ErrProcess ''Q1/Notes'']\<rparr>
   \<and> \<not> path_exists (disk pdf_dir_world)
         (path_div (PPath False [''out'', ''Reports'']) ''Notes'')
   \<and> process_file docs_drive (PPath False [''out'', ''Reports''])
       (doc_file ''d'' ''Notes'' [(''application/pdf'', ''e1'')]) pdf_dir_world
     = pdf_dir_world\<lparr>logs := [ErrProcess ''Notes'']\<rparr>"
  by (simp add: docs_drive_def reports_world_def pdf_dir_world_def example_defs path_defs
      walker_defs)

text \<open>
  Claim C7, amended: for a file entry without a direct-download reference, with export
  references, and no file at the path of its display name. When the references include
  a non-empty PDF link, the request for it returns bytes and the target can be opened
  for writing (its parent is a directory and it is not itself a directory), those bytes
  are written to the path \<^verbatim>\<open>with_suffix('.pdf')\<close> gives, which replaces the extension of
  the display name by \<^verbatim>\<open>.pdf\<close> (and appends \<^verbatim>\<open>.pdf\<close> to a name without extension).
  When the references include no PDF link, a warning is logged and the disk is left as
  it was.
\<close>

theorem export_only_entry:
  assumes "downloadUrl f = None" and "exportLinks f = Some links"
    and "\<not> path_exists (disk w) (path_div dir (title f))"
  shows "(map_of links ''application/pdf'' = Some export_link \<and> export_link \<noteq> []
          \<and> http_request drv export_link = Inr content
          \<and> with_suffix_pdf (path_div dir (title f)) = Inr pdf_path
          \<and> is_dir (disk w) (parent pdf_path) \<and> disk w pdf_path \<noteq> Some Directory
          \<longrightarrow> process_file drv dir f w
                = w\<lparr>disk := (disk w)(pdf_path \<mapsto> RegularFile content),
                    progress_n := progress_n w + 1,
                    logs := logs w @ [InfoExported (title f)]\<rparr>)
       \<and> (title f = stem @ ''.'' @ ext \<and> stem \<noteq> [] \<and> ext \<noteq> []
          \<and> CHR ''.'' \<notin> set ext \<and> CHR ''/'' \<notin> set (title f)
          \<longrightarrow> with_suffix_pdf (path_div dir (title f))
                = Inr (PPath (pp_abs dir) (pp_parts dir @ [stem @ ''.pdf''])))
       \<and> (title f \<noteq> [] \<and> CHR ''.'' \<notin> set (title f) \<and> CHR ''/'' \<notin> set (title f)
          \<longrightarrow> with_suffix_pdf (path_div dir (title f))
                = Inr (PPath (pp_abs dir) (pp_parts dir @ [title f @ ''.pdf''])))
       \<and> (map_of links ''application/pdf'' = None
          \<longrightarrow> process_file drv dir f w
                = w\<lparr>progress_n := progress_n w + 1,
                    logs := logs w @ [WarnNoExportLink (title f)]\<rparr>)"
proof (intro conjI impI)
  assume h: "map_of links ''application/pdf'' = Some export_link \<and> export_link \<noteq> []
          \<and> http_request drv export_link = Inr content
          \<and> with_suffix_pdf (path_div dir (title f)) = Inr pdf_path
          \<and> is_dir (disk w) (parent pdf_path) \<and> disk w pdf_path \<noteq> Some Directory"
  then have "pp_parts pdf_path \<noteq> []" using with_suffix_pdf_parts by blast
  with h have "write_file (disk w) pdf_path content = Inr ((disk w)(pdf_path \<mapsto> RegularFile content))"
    by (simp add: write_file_ok)
  with assms h show "process_file drv dir f w
                = w\<lparr>disk := (disk w)(pdf_path \<mapsto> RegularFile content),
                    progress_n := progress_n w + 1,
                    logs := logs w @ [InfoExported (title f)]\<rparr>"
    by (simp add: export_step)
next
  assume h: "title f = stem @ ''.'' @ ext \<and> stem \<noteq> [] \<and> ext \<noteq> []
          \<and> CHR ''.'' \<notin> set ext \<and> CHR ''/'' \<notin> set (title f)"
  then have "length (title f) = length stem + 1 + length ext" by simp
  with h have "length (title f) \<noteq> 0" "length (title f) \<noteq> 1" by auto
  then have ne: "title f \<noteq> []" "title f \<noteq> ''.''" by auto
  from h have "CHR ''/'' \<notin> set (title f)" by blast
  from path_div_plain_title [OF this ne]
  have "path_div dir (title f) = PPath (pp_abs dir) (pp_parts dir @ [title f])" .
  with h have "path_div dir (title f) = PPath (pp_abs dir) (pp_parts dir @ [stem @ ''.'' @ ext])"
    by simp
  with h show "with_suffix_pdf (path_div dir (title f))
                = Inr (PPath (pp_abs dir) (pp_parts dir @ [stem @ ''.pdf'']))"
    by (simp add: with_suffix_pdf_ext)
next
  assume h: "title f \<noteq> [] \<and> CHR ''.'' \<notin> set (title f) \<and> CHR ''/'' \<notin> set (title f)"
  then have "title f \<noteq> ''.''" by auto
  with h have "path_div dir (title f) = PPath (pp_abs dir) (pp_parts dir @ [title f])"
    by (simp add: path_div_plain_title)
  with h show "with_suffix_pdf (path_div dir (title f))
                = Inr (PPath (pp_abs dir) (pp_parts dir @ [title f @ ''.pdf'']))"
    by (simp add: with_suffix_pdf_plain)
next
  assume "map_of links ''application/pdf'' = None"
  with assms show "process_file drv dir f w
                = w\<lparr>progress_n := progress_n w + 1,
                    logs := logs w @ [WarnNoExportLink (title f)]\<rparr>"
    by (simp add: process_file_def fetch_file_def log_event_def progress_update_def)
qed

text \<open>The theorem at a document \<^verbatim>\<open>Plan.gdoc\<close> with a PDF link, and at a sheet without one.\<close>

theorem export_only_entry_witness:
  "process_file docs_drive (PPath False [''out'', ''Reports''])
     (doc_file ''p'' ''Plan.gdoc'' [(''application/pdf'', ''e1'')]) reports_world
   = reports_world
       \<lparr>disk := (disk reports_world)
                  (PPath False [''out'', ''Reports'', ''Plan.pdf''] \<mapsto> RegularFile ''%PDF''),
        progress_n := 1, logs := [InfoExported ''Plan.gdoc'']\<rparr>
   \<and> process_file docs_drive (PPath False [''out'', ''Reports''])
       (doc_file ''q'' ''Sheet'' [(''text/csv'', ''e2'')]) reports_world
     = reports_world\<lparr>progress_n := 1, logs := [WarnNoExportLink ''Sheet'']\<rparr>"
proof -
  let ?dir = "PPath False [''out'', ''Reports'']"
  let ?f = "doc_file ''p'' ''Plan.gdoc'' [(''application/pdf'', ''e1'')]"
  let ?g = "doc_file ''q'' ''Sheet'' [(''text/csv'', ''e2'')]"
  let ?pdf = "PPath False [''out'', ''Reports'', ''Plan.pdf'']"
  have f1: "downloadUrl ?f = None" and f2: "exportLinks ?f = Some [(''application/pdf'', ''e1'')]"
    and f3: "\<not> path_exists (disk reports_world) (path_div ?dir (title ?f))"
    by (simp_all add: example_defs reports_world_def path_defs)
  have g1: "downloadUrl ?g = None" and g2: "exportLinks ?g = Some [(''text/csv'', ''e2'')]"
    and g3: "\<not> path_exists (disk reports_world) (path_div ?dir (title ?g))"
    by (simp_all add: example_defs reports_world_def path_defs)
  have name: "title ?f = ''Plan'' @ ''.'' @ ''gdoc'' \<and> ''Plan'' \<noteq> [] \<and> ''gdoc'' \<noteq> []
          \<and> CHR ''.'' \<notin> set ''gdoc'' \<and> CHR ''/'' \<notin> set (title ?f)"
    by (simp add: example_defs)
  from export_only_entry [OF f1 f2 f3, where stem = "''Plan''" and ext = "''gdoc''"] name
  have pdf: "with_suffix_pdf (path_div ?dir (title ?f)) = Inr ?pdf"
    by simp
  have "map_of [(''application/pdf'', ''e1'')] ''application/pdf'' = Some ''e1'' \<and> ''e1'' \<noteq> []
          \<and> http_request docs_drive ''e1'' = Inr ''%PDF''
          \<and> is_dir (disk reports_world) (parent ?pdf) \<and> disk reports_world ?pdf \<noteq> Some Directory"
    by (simp add: docs_drive_def reports_world_def path_defs)
  with pdf export_only_entry [OF f1 f2 f3, where export_link = "''e1''" and drv = docs_drive
      and content = "''%PDF''" and pdf_path = ?pdf]
  have first: "process_file docs_drive ?dir ?f reports_world
                = reports_world\<lparr>disk := (disk reports_world)(?pdf \<mapsto> RegularFile ''%PDF''),
                    progress_n := progress_n reports_world + 1,
                    logs := logs reports_world @ [InfoExported (title ?f)]\<rparr>"
    by blast
  have "map_of [(''text/csv'', ''e2'')] ''application/pdf'' = None" by simp
  with export_only_entry [OF g1 g2 g3, where drv = docs_drive]
  have second: "process_file docs_drive ?dir ?g reports_world
                = reports_world\<lparr>progress_n := progress_n reports_world + 1,
                    logs := logs reports_world @ [WarnNoExportLink (title ?g)]\<rparr>"
    by blast
  from first second show ?thesis
    by (simp add: reports_world_def example_defs)
qed



section \<open>Remote failures end only the subtree\<close>



section \<open>Folder Mirror Walker: the target directory\<close>

lemma join_slash_ends_with_last: "ps \<noteq> [] \<Longrightarrow> \<exists>pre. join_slash ps = pre @ last ps"
  by (induction ps rule: join_slash.induct) auto

text \<open>
  When the final component of the output directory is the folder's name, the output
  directory is reused as it is and nothing is created.
\<close>

lemma final_component_reused:
  assumes "pp_parts out \<noteq> []" and "last (pp_parts out) = folder_name"
  shows "target_directory folder_name out fs = Inr (out, fs)"
proof -
  from assms obtain pre where "join_slash (pp_parts out) = pre @ folder_name"
    using join_slash_ends_with_last by blast
  then have "path_str out = (if pp_abs out then ''/'' @ pre else pre) @ folder_name @ []"
    using assms(1) by (simp add: path_str_def)
  then have "str_contains (path_str out) folder_name"
    unfolding str_contains_iff by blast
  then show ?thesis by (simp add: target_directory_def)
qed

text \<open>
  Claim C1, at the script's own output directory \<^verbatim>\<open>./Downloaded_Files\<close> and a folder titled
  \<^verbatim>\<open>Files\<close>: the final component differs from the folder name, the claim says the name is
  appended and the directory created, but line 104 tests whether the name occurs anywhere
  in the path string, so the output directory is reused and no directory is created (the
  download of the folder's file then fails, the directory being absent).
\<close>

theorem substring_match_reuses_output_directory:
  "last (pp_parts (parse_path ''./Downloaded_Files'')) \<noteq> ''Files''
   \<and> target_directory ''Files'' (parse_path ''./Downloaded_Files'') Map.empty
       = Inr (parse_path ''./Downloaded_Files'', Map.empty)
   \<and> (\<exists>w. download_google_drive_folder 1 files_drive ''F'' (parse_path ''./Downloaded_Files'')
              empty_world = Some (Returned, w)
          \<and> disk w (PPath False [''Downloaded_Files'', ''Files'']) = None
          \<and> logs w = [InfoProcessingFolder ''Files'', ErrProcess ''a.txt''])"
  by (simp add: files_drive_def example_defs path_defs walker_defs)

section \<open>Folder Mirror Walker: running it twice\<close>

lemma parent_differs: "pp_parts p \<noteq> [] \<Longrightarrow> parent p \<noteq> p"
proof
  assume ne: "pp_parts p \<noteq> []" and "parent p = p"
  then have "pp_parts (parent p) = pp_parts p" by simp
  then have "butlast (pp_parts p) = pp_parts p" by (simp add: parent_def)
  then have "length (butlast (pp_parts p)) = length (pp_parts p)" by simp
  then have "length (pp_parts p) - 1 = length (pp_parts p)" by (simp only: length_butlast)
  moreover from ne have "length (pp_parts p) \<noteq> 0" by simp
  ultimately show False by arith
qed

lemma download_step:
  assumes "downloadUrl f = Some url" and "url \<noteq> []"
    and "http_request drv url = Inr content"
    and "\<not> path_exists (disk w) (path_div dir (title f))"
    and "is_dir (disk w) (parent (path_div dir (title f)))"
  shows "process_file drv dir f w
           = w\<lparr>disk := (disk w)(path_div dir (title f) \<mapsto> RegularFile content),
               progress_n := progress_n w + 1,
               logs := logs w @ [InfoDownloaded (title f)]\<rparr>"
proof -
  let ?p = "path_div dir (title f)"
  from assms(4) have ne: "pp_parts ?p \<noteq> []" and none: "disk w ?p = None"
    by (auto simp: path_exists_def fs_lookup_def split: if_splits)
  with assms(5) have "write_file (disk w) ?p content = Inr ((disk w)(?p \<mapsto> RegularFile content))"
    by (simp add: write_file_ok)
  with assms show ?thesis
    by (simp add: process_file_def fetch_file_def get_content_file_def log_event_def
        progress_update_def)
qed

text \<open>
  Processed a second time, a downloaded entry is skipped: its file now exists at the path
  the check looks at.
\<close>

lemma download_then_skip:
  assumes "downloadUrl f = Some url" and "url \<noteq> []"
    and "http_request drv url = Inr content"
    and "\<not> path_exists (disk w) (path_div dir (title f))"
    and "is_dir (disk w) (parent (path_div dir (title f)))"
  shows "process_file drv dir f (process_file drv dir f w)
           = w\<lparr>disk := (disk w)(path_div dir (title f) \<mapsto> RegularFile content),
               progress_n := progress_n w + 2,
               logs := logs w @ [InfoDownloaded (title f), InfoSkipped (title f)]\<rparr>"
proof -
  let ?p = "path_div dir (title f)"
  let ?w1 = "w\<lparr>disk := (disk w)(?p \<mapsto> RegularFile content), progress_n := progress_n w + 1,
               logs := logs w @ [InfoDownloaded (title f)]\<rparr>"
  from download_step [OF assms] have first: "process_file drv dir f w = ?w1" .
  have "path_exists (disk ?w1) ?p" by (simp add: path_exists_def fs_lookup_def)
  then have "process_file drv dir f ?w1 = progress_update (log_event (InfoSkipped (title f)) ?w1)"
    by (simp add: process_file_def)
  with first show ?thesis by (simp add: log_event_def progress_update_def)
qed

text \<open>
  An exported entry is exported again: the first export wrote the \<^verbatim>\<open>.pdf\<close> path, and the
  check still finds nothing at the path of the display name.
\<close>

lemma export_then_export_again:
  assumes "downloadUrl f = None" and "exportLinks f = Some links"
    and "\<not> path_exists (disk w) (path_div dir (title f))"
    and "map_of links ''application/pdf'' = Some export_link" and "export_link \<noteq> []"
    and "http_request drv export_link = Inr content"
    and "with_suffix_pdf (path_div dir (title f)) = Inr pdf_path"
    and "pdf_path \<noteq> path_div dir (title f)"
    and "is_dir (disk w) (parent pdf_path)" and "disk w pdf_path \<noteq> Some Directory"
  shows "process_file drv dir f (process_file drv dir f w)
           = w\<lparr>disk := (disk w)(pdf_path \<mapsto> RegularFile content),
               progress_n := progress_n w + 2,
               logs := logs w @ [InfoExported (title f), InfoExported (title f)]\<rparr>"
proof -
  let ?p = "path_div dir (title f)"
  let ?fs1 = "(disk w)(pdf_path \<mapsto> RegularFile content)"
  let ?w1 = "w\<lparr>disk := ?fs1, progress_n := progress_n w + 1,
               logs := logs w @ [InfoExported (title f)]\<rparr>"
  from assms(7) have ne: "pp_parts pdf_path \<noteq> []" by (rule with_suffix_pdf_parts)
  with assms(9,10) have
    w1: "write_file (disk w) pdf_path content = Inr ?fs1"
    by (simp add: write_file_ok)
  from export_step [OF assms(1,2,3,4,5,6,7) w1] have first: "process_file drv dir f w = ?w1" .
  from assms(3,8) have absent: "\<not> path_exists (disk ?w1) ?p"
    by (auto simp: path_exists_def fs_lookup_def split: if_splits)
  from ne have "parent pdf_path \<noteq> pdf_path" by (rule parent_differs)
  with assms(9) have "is_dir ?fs1 (parent pdf_path)"
    by (auto simp: is_dir_def fs_lookup_def)
  with ne have "write_file ?fs1 pdf_path content = Inr (?fs1(pdf_path \<mapsto> RegularFile content))"
    by (simp add: write_file_ok)
  then have w2: "write_file (disk ?w1) pdf_path content = Inr ?fs1" by simp
  from absent have absent': "\<not> path_exists (disk ?w1) (path_div dir (title f))" .
  from export_step [OF assms(1,2) absent' assms(4,5,6,7) w2]
  have "process_file drv dir f ?w1
          = ?w1\<lparr>disk := ?fs1, progress_n := progress_n ?w1 + 1,
               logs := logs ?w1 @ [InfoExported (title f)]\<rparr>" .
  with first show ?thesis by simp
qed

text \<open>
  Claim C2, on a folder with one Google document: the first run succeeds and writes
  \<^verbatim>\<open>Notes.pdf\<close>, nothing exists at the display-name path \<^verbatim>\<open>Notes\<close>, and so the second run
  over the same output directory exports the document again instead of skipping it.
\<close>

theorem rerun_exports_again:
  "\<exists>w1 w2.
     download_google_drive_folder 1 docs_drive ''R'' (parse_path ''out'') empty_world
       = Some (Returned, w1)
   \<and> logs w1 = [InfoProcessingFolder ''Reports'', InfoExported ''Notes'']
   \<and> progress_n w1 = 1
   \<and> disk w1 (PPath False [''out'', ''Reports'', ''Notes.pdf'']) = Some (RegularFile ''%PDF'')
   \<and> disk w1 (PPath False [''out'', ''Reports'', ''Notes'']) = None
   \<and> download_google_drive_folder 1 docs_drive ''R'' (parse_path ''out'') w1
       = Some (Returned, w2)
   \<and> logs w2 = logs w1 @ [InfoProcessingFolder ''Reports'', InfoExported ''Notes'']"
  by (simp add: docs_drive_def example_defs path_defs walker_defs)

section \<open>File Counter: the count is the number of descendant files\<close>

lemma count_loop_children_files:
  assumes "children_files drv cs n"
  shows "\<exists>k. \<forall>fuel\<ge>k. \<forall>c lg. count_loop (count_files fuel drv) cs c lg = Some (c + n, lg)"
  using assms
proof (induction rule: children_files.induct)
  case no_child
  then show ?case by simp
next
  case (file_child f cs n)
  then obtain k where
    "\<forall>fuel\<ge>k. \<forall>c lg. count_loop (count_files fuel drv) cs c lg = Some (c + n, lg)"
    by blast
  with file_child.hyps(1) have
    "\<forall>fuel\<ge>k. \<forall>c lg. count_loop (count_files fuel drv) (f # cs) c lg = Some (c + (1 + n), lg)"
    by (simp add: add.assoc)
  then show ?case by blast
next
  case (folder_child f sub m cs n)
  from folder_child.IH obtain k1 k2 where
    k1: "\<forall>fuel\<ge>k1. \<forall>c lg. count_loop (count_files fuel drv) sub c lg = Some (c + m, lg)" and
    k2: "\<forall>fuel\<ge>k2. \<forall>c lg. count_loop (count_files fuel drv) cs c lg = Some (c + n, lg)"
    by blast
  have "count_loop (count_files fuel drv) (f # cs) c lg = Some (c + (m + n), lg)"
    if "fuel \<ge> max (Suc k1) k2" for fuel c lg
  proof -
    from that obtain fuel' where fuel': "fuel = Suc fuel'" "fuel' \<ge> k1"
      by (cases fuel) auto
    with k1 folder_child.hyps(2) have "count_files fuel drv (file_id f) lg = Some (m, lg)"
      by simp
    moreover from that k2 have
      "count_loop (count_files fuel drv) cs (c + m) lg = Some (c + m + n, lg)"
      by simp
    ultimately show ?thesis using folder_child.hyps(1) by (simp add: add.assoc)
  qed
  then show ?case by blast
qed

lemma count_files_descendant_files:
  assumes "descendant_files drv folder_id n"
  shows "\<exists>k. \<forall>fuel\<ge>k. \<forall>lg. count_files fuel drv folder_id lg = Some (n, lg)"
proof -
  from assms obtain cs where cs: "list_children drv folder_id = Inr cs" "children_files drv cs n"
    by (auto simp: descendant_files_def)
  from count_loop_children_files [OF cs(2)] obtain k where
    k: "\<forall>fuel\<ge>k. \<forall>c lg. count_loop (count_files fuel drv) cs c lg = Some (c + n, lg)"
    by blast
  have "count_files fuel drv folder_id lg = Some (n, lg)" if "fuel \<ge> Suc k" for fuel lg
  proof -
    from that obtain fuel' where "fuel = Suc fuel'" "fuel' \<ge> k" by (cases fuel) auto
    with k cs(1) show ?thesis by simp
  qed
  then show ?thesis by blast
qed

lemma descendant_files_unique:
  assumes "descendant_files drv folder_id n" and "descendant_files drv folder_id n'"
  shows "n' = n"
proof -
  from count_files_descendant_files [OF assms(1)] obtain k where
    k: "\<forall>fuel\<ge>k. \<forall>lg. count_files fuel drv folder_id lg = Some (n, lg)" by blast
  from count_files_descendant_files [OF assms(2)] obtain k' where
    k': "\<forall>fuel\<ge>k'. \<forall>lg. count_files fuel drv folder_id lg = Some (n', lg)" by blast
  from k have "count_files (max k k') drv folder_id [] = Some (n, [])" by simp
  moreover from k' have "count_files (max k k') drv folder_id [] = Some (n', [])" by simp
  ultimately show ?thesis by simp
qed

lemma children_files_exist:
  assumes "\<And>f. f \<in> set cs \<Longrightarrow> mimeType f = folder_mime \<Longrightarrow> \<exists>n. descendant_files drv (file_id f) n"
  shows "\<exists>n. children_files drv cs n"
  using assms
proof (induction cs)
  case Nil
  show ?case using no_child by blast
next
  case (Cons f cs)
  then obtain n where n: "children_files drv cs n" by auto
  show ?case
  proof (cases "mimeType f = folder_mime")
    case True
    with Cons.prems obtain m where "descendant_files drv (file_id f) m" by auto
    then obtain sub where "list_children drv (file_id f) = Inr sub" "children_files drv sub m"
      by (auto simp: descendant_files_def)
    with True n have "children_files drv (f # cs) (m + n)" by (simp add: folder_child)
    then show ?thesis by blast
  next
    case False
    with n have "children_files drv (f # cs) (1 + n)" by (simp add: file_child)
    then show ?thesis by blast
  qed
qed

lemma listable_has_count: "listable drv folder_id \<Longrightarrow> \<exists>n. descendant_files drv folder_id n"
proof (induction rule: listable.induct)
  case (listable_folder folder_id cs)
  then have "\<exists>n. children_files drv cs n" by (intro children_files_exist) blast
  with listable_folder.hyps(1) show ?case by (auto simp: descendant_files_def)
qed

lemma file_at_nonempty: "file_at drv cs p \<Longrightarrow> p \<noteq> []"
  by (induction rule: file_at.induct) auto

lemma file_at_Nil: "\<not> file_at drv [] p"
  by (auto elim: file_at.cases)

lemma file_at_head_file:
  assumes "mimeType f \<noteq> folder_mime"
  shows "file_at drv (f # cs) p \<longleftrightarrow> p = [0] \<or> (\<exists>q. file_at drv cs q \<and> p = later_sibling q)"
proof
  assume "file_at drv (f # cs) p"
  then show "p = [0] \<or> (\<exists>q. file_at drv cs q \<and> p = later_sibling q)"
  proof (cases rule: file_at.cases)
    case (file_here k)
    show ?thesis
    proof (cases k)
      case 0
      with file_here show ?thesis by simp
    next
      case (Suc j)
      with file_here have "file_at drv cs [j]" by (auto intro: file_at.file_here)
      with file_here Suc show ?thesis by (auto simp: later_sibling_def)
    qed
  next
    case (file_below k sub q)
    show ?thesis
    proof (cases k)
      case 0
      with file_below assms show ?thesis by simp
    next
      case (Suc j)
      with file_below have "file_at drv cs (j # q)" by (auto intro: file_at.file_below)
      with file_below Suc show ?thesis by (auto simp: later_sibling_def)
    qed
  qed
next
  assume "p = [0] \<or> (\<exists>q. file_at drv cs q \<and> p = later_sibling q)"
  then show "file_at drv (f # cs) p"
  proof
    assume "p = [0]"
    with assms show ?thesis by (auto intro: file_at.file_here)
  next
    assume "\<exists>q. file_at drv cs q \<and> p = later_sibling q"
    then obtain q where q: "file_at drv cs q" "p = later_sibling q" by blast
    from q(1) show ?thesis
    proof (cases rule: file_at.cases)
      case (file_here k)
      with q(2) show ?thesis by (auto simp: later_sibling_def intro: file_at.file_here)
    next
      case (file_below k sub r)
      then have "file_at drv (f # cs) (Suc k # r)" by (auto intro: file_at.file_below)
      with file_below q(2) show ?thesis by (simp add: later_sibling_def)
    qed
  qed
qed

lemma file_at_head_folder:
  assumes "mimeType f = folder_mime" and "list_children drv (file_id f) = Inr sub"
  shows "file_at drv (f # cs) p \<longleftrightarrow>
           (\<exists>q. file_at drv sub q \<and> p = 0 # q) \<or> (\<exists>q. file_at drv cs q \<and> p = later_sibling q)"
proof
  assume "file_at drv (f # cs) p"
  then show "(\<exists>q. file_at drv sub q \<and> p = 0 # q) \<or> (\<exists>q. file_at drv cs q \<and> p = later_sibling q)"
  proof (cases rule: file_at.cases)
    case (file_here k)
    show ?thesis
    proof (cases k)
      case 0
      with file_here assms show ?thesis by simp
    next
      case (Suc j)
      with file_here have "file_at drv cs [j]" by (auto intro: file_at.file_here)
      with file_here Suc show ?thesis by (auto simp: later_sibling_def)
    qed
  next
    case (file_below k sub' q)
    show ?thesis
    proof (cases k)
      case 0
      with file_below assms show ?thesis by simp
    next
      case (Suc j)
      with file_below have "file_at drv cs (j # q)" by (auto intro: file_at.file_below)
      with file_below Suc show ?thesis by (auto simp: later_sibling_def)
    qed
  qed
next
  assume "(\<exists>q. file_at drv sub q \<and> p = 0 # q) \<or> (\<exists>q. file_at drv cs q \<and> p = later_sibling q)"
  then show "file_at drv (f # cs) p"
  proof
    assume "\<exists>q. file_at drv sub q \<and> p = 0 # q"
    then obtain q where "file_at drv sub q" "p = 0 # q" by blast
    with assms show ?thesis
      using file_at.file_below [of 0 "f # cs" drv sub q] by simp
  next
    assume "\<exists>q. file_at drv cs q \<and> p = later_sibling q"
    then obtain q where q: "file_at drv cs q" "p = later_sibling q" by blast
    from q(1) show ?thesis
    proof (cases rule: file_at.cases)
      case (file_here k)
      with q(2) show ?thesis by (auto simp: later_sibling_def intro: file_at.file_here)
    next
      case (file_below k sub' r)
      then have "file_at drv (f # cs) (Suc k # r)" by (auto intro: file_at.file_below)
      with file_below q(2) show ?thesis by (simp add: later_sibling_def)
    qed
  qed
qed

lemma later_sibling_inj: "inj_on later_sibling {q. file_at drv cs q}"
proof (rule inj_onI)
  fix p q
  assume "p \<in> {q. file_at drv cs q}" "q \<in> {q. file_at drv cs q}" "later_sibling p = later_sibling q"
  then show "p = q"
    by (cases p; cases q) (auto simp: later_sibling_def dest: file_at_nonempty)
qed

lemma children_files_card:
  assumes "children_files drv cs n"
  shows "finite {p. file_at drv cs p} \<and> n = int (card {p. file_at drv cs p})"
  using assms
proof (induction rule: children_files.induct)
  case no_child
  then show ?case by (simp add: file_at_Nil)
next
  case (file_child f cs n)
  let ?L = "later_sibling ` {q. file_at drv cs q}"
  from file_child.hyps(1) have eq: "{p. file_at drv (f # cs) p} = insert [0] ?L"
    by (auto simp: file_at_head_file)
  have notin: "[0] \<notin> ?L"
    by (auto simp: later_sibling_def split: list.splits)
  from file_child.IH have fin: "finite ?L" by simp
  have "card ?L = card {q. file_at drv cs q}"
    by (rule card_image) (rule later_sibling_inj)
  with eq notin fin file_child.IH show ?case by simp
next
  case (folder_child f sub m cs n)
  let ?S = "(#) 0 ` {q. file_at drv sub q}"
  let ?L = "later_sibling ` {q. file_at drv cs q}"
  from folder_child.hyps(1,2) have eq: "{p. file_at drv (f # cs) p} = ?S \<union> ?L"
    by (auto simp: file_at_head_folder)
  have disj: "?S \<inter> ?L = {}"
    by (auto simp: later_sibling_def split: list.splits)
  from folder_child.IH have fin: "finite ?S" "finite ?L" by simp_all
  have "card ?S = card {q. file_at drv sub q}"
    by (rule card_image) simp
  moreover have "card ?L = card {q. file_at drv cs q}"
    by (rule card_image) (rule later_sibling_inj)
  moreover from fin disj have "card (?S \<union> ?L) = card ?S + card ?L"
    by (rule card_Un_disjoint)
  ultimately show ?case using eq fin folder_child.IH by simp
qed

lemma file_positions_card:
  assumes "descendant_files drv folder_id n"
  shows "finite (file_positions drv folder_id) \<and> n = int (card (file_positions drv folder_id))"
proof -
  from assms obtain cs where cs: "list_children drv folder_id = Inr cs" "children_files drv cs n"
    by (auto simp: descendant_files_def)
  from cs(1) have "file_positions drv folder_id = {p. file_at drv cs p}"
    by (simp add: file_positions_def)
  with children_files_card [OF cs(2)] show ?thesis by simp
qed

text \<open>
  Claim C6: on an acyclic remote tree whose listings all succeed, \<^verbatim>\<open>count_files\<close> returns
  (given fuel for the depth of the tree) and logs nothing; its result is the number of
  descendant file entries, at any depth, and it is the count in the specification's
  recursive sense: every file child counts 1, every folder child counts as its own
  listing does and nothing for itself.
\<close>

theorem count_files_counts_descendants:
  assumes "listable drv folder_id"
  shows "finite (file_positions drv folder_id)
         \<and> descendant_files drv folder_id (int (card (file_positions drv folder_id)))
         \<and> (\<exists>k. \<forall>fuel\<ge>k. count_files fuel drv folder_id lg
                             = Some (int (card (file_positions drv folder_id)), lg))"
proof -
  from listable_has_count [OF assms] obtain n where n: "descendant_files drv folder_id n"
    by blast
  from file_positions_card [OF n] have
    card: "finite (file_positions drv folder_id)" "n = int (card (file_positions drv folder_id))"
    by simp_all
  from count_files_descendant_files [OF n] obtain k where
    "\<forall>fuel\<ge>k. count_files fuel drv folder_id lg = Some (n, lg)" by blast
  with n card show ?thesis by blast
qed

lemma nested_drive_listable: "listable nested_drive ''R''"
proof (rule listable_folder)
  show "list_children nested_drive ''R''
          = Inr [plain_file ''a'' ''a.txt'' ''u1'', folder_entry ''S'' ''Sub'']"
    by (simp add: nested_drive_def)
next
  fix f
  assume "f \<in> set [plain_file ''a'' ''a.txt'' ''u1'', folder_entry ''S'' ''Sub'']"
    and "mimeType f = folder_mime"
  then have "file_id f = ''S''" by (auto simp: example_defs)
  moreover have "listable nested_drive ''S''"
  proof (rule listable_folder)
    show "list_children nested_drive ''S'' = Inr [plain_file ''x'' ''x.txt'' ''u2'']"
      by (simp add: nested_drive_def)
  qed (auto simp: example_defs)
  ultimately show "listable nested_drive (file_id f)" by simp
qed

text \<open>The theorem at \<^verbatim>\<open>nested_drive\<close>, which holds two files at two depths.\<close>

theorem count_files_counts_descendants_witness:
  "listable nested_drive ''R'' \<and> card (file_positions nested_drive ''R'') = 2
   \<and> descendant_files nested_drive ''R'' 2
   \<and> count_files 2 nested_drive ''R'' [] = Some (2, [])"
proof -
  from count_files_counts_descendants [OF nested_drive_listable, of "[]"] obtain k where
    n: "descendant_files nested_drive ''R'' (int (card (file_positions nested_drive ''R'')))"
    and k: "\<forall>fuel\<ge>k. count_files fuel nested_drive ''R'' []
                       = Some (int (card (file_positions nested_drive ''R'')), [])"
    by blast
  have two: "count_files (Suc (Suc fuel)) nested_drive ''R'' [] = Some (2, [])" for fuel
    by (simp add: nested_drive_def example_defs)
  have "Suc (Suc k) \<ge> k" by simp
  with k have "count_files (Suc (Suc k)) nested_drive ''R'' []
                 = Some (int (card (file_positions nested_drive ''R'')), [])" by blast
  with two [of k] have "int (card (file_positions nested_drive ''R'')) = 2" by simp
  with n two [of 0] nested_drive_listable show ?thesis by (simp add: numeral_2_eq_2)
qed

section \<open>The walker advances the counter as the counter counted\<close>

lemma quiet_simps [simp]:
  "quiet []" "quiet (ev # evs) \<longleftrightarrow> level_of ev \<noteq> ERROR \<and> quiet evs"
  "quiet (xs @ ys) \<longleftrightarrow> quiet xs \<and> quiet ys"
  by (simp_all add: quiet_def)

lemma process_file_step:
  "progress_total (process_file drv dir f w) = progress_total w \<and>
   (\<exists>ev. logs (process_file drv dir f w) = logs w @ [ev] \<and>
      (level_of ev \<noteq> ERROR \<longrightarrow> progress_n (process_file drv dir f w) = progress_n w + 1))"
proof (cases "path_exists (disk w) (path_div dir (title f))")
  case True
  then show ?thesis by (simp add: process_file_def log_event_def progress_update_def)
next
  case False
  show ?thesis
  proof (cases "fetch_file drv (path_div dir (title f)) f w")
    case (Inl e)
    with False show ?thesis by (simp add: process_file_def log_event_def)
  next
    case (Inr w')
    then have "progress_total w' = progress_total w \<and> progress_n w' = progress_n w
        \<and> (\<exists>ev. logs w' = logs w @ [ev])"
      by (auto simp: fetch_file_def log_event_def split: option.splits sum.splits if_splits)
    with False Inr show ?thesis
      by (auto simp: process_file_def progress_update_def)
  qed
qed

lemma walk_children_accounts:
  assumes rec: "walk_accounts n drv"
    and run: "walk_children (download_google_drive_folder n drv) drv dir cs w = Some w'"
  shows "progress_total w' = progress_total w \<and>
         (\<exists>evs. logs w' = logs w @ evs \<and>
            (quiet evs \<longrightarrow>
               (\<forall>c lg. count_loop (count_files n drv) cs c lg
                          = Some (c + (progress_n w' - progress_n w), lg))))"
  using run
proof (induction cs arbitrary: w)
  case Nil
  then show ?case by simp
next
  case (Cons f cs)
  show ?case
  proof (cases "mimeType f = folder_mime")
    case False
    let ?w1 = "process_file drv dir f w"
    from False Cons.prems have
      rest: "walk_children (download_google_drive_folder n drv) drv dir cs ?w1 = Some w'"
      by simp
    from Cons.IH [OF rest] obtain evs where
      tot: "progress_total w' = progress_total ?w1" and
      lg: "logs w' = logs ?w1 @ evs" and
      cnt: "quiet evs \<Longrightarrow> count_loop (count_files n drv) cs c lg
                          = Some (c + (progress_n w' - progress_n ?w1), lg)" for c lg
      by blast
    from process_file_step [of drv dir f w] obtain ev where
      tot1: "progress_total ?w1 = progress_total w" and
      lg1: "logs ?w1 = logs w @ [ev]" and
      n1: "level_of ev \<noteq> ERROR \<Longrightarrow> progress_n ?w1 = progress_n w + 1"
      by blast
    have "count_loop (count_files n drv) (f # cs) c lg
            = Some (c + (progress_n w' - progress_n w), lg)" if "quiet (ev # evs)" for c lg
    proof -
      from that have q: "level_of ev \<noteq> ERROR" "quiet evs" by simp_all
      from cnt [OF q(2), of "c + 1" lg] n1 [OF q(1)] False show ?thesis by simp
    qed
    moreover from lg lg1 have "logs w' = logs w @ (ev # evs)" by simp
    ultimately show ?thesis using tot tot1 by metis
  next
    case True
    from True Cons.prems obtain cc w1 where
      call: "download_google_drive_folder n drv (file_id f) dir w = Some (cc, w1)"
      by (auto split: option.splits)
    from rec call obtain e1 where
      tot1: "progress_total w1 = progress_total w" and
      lg1: "logs w1 = logs w @ e1" and
      c1: "cc = Returned \<Longrightarrow> quiet e1 \<Longrightarrow>
             count_files n drv (file_id f) lg = Some (progress_n w1 - progress_n w, lg)" for lg
      unfolding walk_accounts_def by blast
    show ?thesis
    proof (cases cc)
      case Returned
      with True call Cons.prems have
        rest: "walk_children (download_google_drive_folder n drv) drv dir cs w1 = Some w'"
        by simp
      from Cons.IH [OF rest] obtain evs where
        tot: "progress_total w' = progress_total w1" and
        lg: "logs w' = logs w1 @ evs" and
        cnt: "quiet evs \<Longrightarrow> count_loop (count_files n drv) cs c lg
                            = Some (c + (progress_n w' - progress_n w1), lg)" for c lg
        by blast
      have "count_loop (count_files n drv) (f # cs) c lg
              = Some (c + (progress_n w' - progress_n w), lg)" if "quiet (e1 @ evs)" for c lg
      proof -
        from that have q: "quiet e1" "quiet evs" by simp_all
        from c1 [OF Returned q(1), of lg] cnt [OF q(2), of "c + (progress_n w1 - progress_n w)" lg]
          True
        show ?thesis by simp
      qed
      moreover from lg lg1 have "logs w' = logs w @ (e1 @ evs)" by simp
      ultimately show ?thesis using tot tot1 by metis
    next
      case (Raised e)
      let ?w2 = "log_event (ErrProcess (title f)) w1"
      from Raised True call Cons.prems have
        rest: "walk_children (download_google_drive_folder n drv) drv dir cs ?w2 = Some w'"
        by simp
      from Cons.IH [OF rest] obtain evs where
        tot: "progress_total w' = progress_total ?w2" and
        lg: "logs w' = logs ?w2 @ evs"
        by blast
      from lg lg1 have "logs w' = logs w @ (e1 @ ErrProcess (title f) # evs)"
        by (simp add: log_event_def)
      moreover have "\<not> quiet (e1 @ ErrProcess (title f) # evs)" by simp
      moreover from tot tot1 have "progress_total w' = progress_total w"
        by (simp add: log_event_def)
      ultimately show ?thesis by metis
    qed
  qed
qed

lemma walk_accounts_all: "walk_accounts n drv"
proof (induction n)
  case 0
  show ?case by (simp add: walk_accounts_def)
next
  case (Suc n)
  show ?case
    unfolding walk_accounts_def
  proof (intro allI impI)
    fix i out w c w'
    assume run: "download_google_drive_folder (Suc n) drv i out w = Some (c, w')"
    show "progress_total w' = progress_total w \<and>
        (\<exists>evs. logs w' = logs w @ evs \<and>
           (c = Returned \<and> quiet evs \<longrightarrow>
              (\<forall>lg. count_files (Suc n) drv i lg = Some (progress_n w' - progress_n w, lg))))"
    proof (cases "folder_title drv i")
      case (Inl e)
      with run have "w' = log_event (ErrFolderMetadata i) w" by simp
      then have "progress_total w' = progress_total w" "logs w' = logs w @ [ErrFolderMetadata i]"
        by (simp_all add: log_event_def)
      moreover have "\<not> quiet [ErrFolderMetadata i]" by simp
      ultimately show ?thesis by metis
    next
      case (Inr name)
      let ?w1 = "log_event (InfoProcessingFolder name) w"
      show ?thesis
      proof (cases "target_directory name out (disk ?w1)")
        case (Inl e)
        with Inr run have "c = Raised e" "w' = ?w1" by simp_all
        then have "progress_total w' = progress_total w" "c \<noteq> Returned"
          "logs w' = logs w @ [InfoProcessingFolder name]"
          by (simp_all add: log_event_def)
        then show ?thesis by metis
      next
        case (Inr res)
        obtain dir fs' where res: "res = (dir, fs')" by (cases res)
        let ?w2 = "?w1\<lparr>disk := fs'\<rparr>"
        show ?thesis
        proof (cases "list_children drv i")
          case (Inl e)
          with \<open>folder_title drv i = Inr name\<close> Inr res run
          have "w' = log_event (ErrFileList i) ?w2" by simp
          then have "progress_total w' = progress_total w"
            "logs w' = logs w @ [InfoProcessingFolder name, ErrFileList i]"
            by (simp_all add: log_event_def)
          moreover have "\<not> quiet [InfoProcessingFolder name, ErrFileList i]" by simp
          ultimately show ?thesis by metis
        next
          case listed: (Inr cs)
          with \<open>folder_title drv i = Inr name\<close> Inr res run
          have c: "c = Returned" and
            loop: "walk_children (download_google_drive_folder n drv) drv dir cs ?w2 = Some w'"
            by auto
          from walk_children_accounts [OF Suc loop] obtain evs where
            tot: "progress_total w' = progress_total ?w2" and
            lg: "logs w' = logs ?w2 @ evs" and
            cnt: "quiet evs \<Longrightarrow> count_loop (count_files n drv) cs c' lg
                     = Some (c' + (progress_n w' - progress_n ?w2), lg)" for c' lg
            by blast
          have "count_files (Suc n) drv i lg = Some (progress_n w' - progress_n w, lg)"
            if "quiet (InfoProcessingFolder name # evs)" for lg
          proof -
            from that have "quiet evs" by simp
            from cnt [OF this, of 0 lg] listed show ?thesis by (simp add: log_event_def)
          qed
          moreover from lg have "logs w' = logs w @ (InfoProcessingFolder name # evs)"
            by (simp add: log_event_def)
          moreover from tot have "progress_total w' = progress_total w"
            by (simp add: log_event_def)
          ultimately show ?thesis by metis
        qed
      qed
    qed
  qed
qed

lemma walk_roots_accounts:
  assumes "walk_roots fuel drv ids out w = Some (c, w')"
  shows "progress_total w' = progress_total w \<and>
         (\<exists>evs. logs w' = logs w @ evs \<and>
            (c = Returned \<and> quiet evs \<longrightarrow>
               (\<forall>acc lg. count_roots fuel drv ids acc lg
                          = Some (acc + (progress_n w' - progress_n w), lg))))"
  using assms
proof (induction ids arbitrary: w)
  case Nil
  then show ?case by simp
next
  case (Cons i ids)
  from Cons.prems obtain cc w1 where
    call: "download_google_drive_folder fuel drv i out w = Some (cc, w1)"
    by (auto split: option.splits)
  from walk_accounts_all [of fuel drv] call obtain e1 where
    tot1: "progress_total w1 = progress_total w" and
    lg1: "logs w1 = logs w @ e1" and
    c1: "cc = Returned \<Longrightarrow> quiet e1 \<Longrightarrow>
           count_files fuel drv i lg = Some (progress_n w1 - progress_n w, lg)" for lg
    unfolding walk_accounts_def by blast
  show ?case
  proof (cases cc)
    case (Raised e)
    with call Cons.prems have "c = Raised e" "w' = w1" by simp_all
    with tot1 lg1 show ?thesis by auto
  next
    case Returned
    with call Cons.prems have rest: "walk_roots fuel drv ids out w1 = Some (c, w')" by simp
    from Cons.IH [OF rest] obtain evs where
      tot: "progress_total w' = progress_total w1" and
      lg: "logs w' = logs w1 @ evs" and
      cnt: "c = Returned \<Longrightarrow> quiet evs \<Longrightarrow>
              count_roots fuel drv ids acc lg = Some (acc + (progress_n w' - progress_n w1), lg)"
        for acc lg
      by blast
    have "count_roots fuel drv (i # ids) acc lg = Some (acc + (progress_n w' - progress_n w), lg)"
      if "c = Returned" "quiet (e1 @ evs)" for acc lg
    proof -
      from that have q: "quiet e1" "quiet evs" by simp_all
      from c1 [OF Returned q(1), of lg]
        cnt [OF that(1) q(2), of "acc + (progress_n w1 - progress_n w)" lg]
      show ?thesis by simp
    qed
    moreover from lg lg1 have "logs w' = logs w @ (e1 @ evs)" by simp
    ultimately show ?thesis using tot tot1 by metis
  qed
qed

lemma quiet_set: "quiet evs \<longleftrightarrow> (\<forall>ev \<in> set evs. level_of ev \<noteq> ERROR)"
  by (simp add: quiet_def list_all_iff)

lemma bulk_download_accounts:
  assumes run: "google_drive_bulk_download fuel (Inr drv) links out w = Some (Returned, w')"
    and q: "quiet (logs w')"
  shows "\<exists>lg'. count_roots fuel drv (fst (extract_folder_ids links (logs w @ [InfoAuthenticated]))) 0
                 (snd (extract_folder_ids links (logs w @ [InfoAuthenticated])) @ [InfoCounting])
               = Some (progress_total w', lg')
           \<and> progress_n w' = progress_total w'"
proof -
  obtain ids lg where ex: "extract_folder_ids links (logs w @ [InfoAuthenticated]) = (ids, lg)"
    by (cases "extract_folder_ids links (logs w @ [InfoAuthenticated])")
  have ne: "ids \<noteq> []"
  proof
    assume "ids = []"
    with run ex have "w' = w\<lparr>logs := lg @ [ErrNoValidIds]\<rparr>"
      by (simp add: google_drive_bulk_download_def)
    with q show False by simp
  qed
  with run ex obtain total lg' where
    cnt: "count_roots fuel drv ids 0 (lg @ [InfoCounting]) = Some (total, lg')" and
    walk: "walk_roots fuel drv ids (parse_path out)
             (w\<lparr>progress_n := 0, progress_total := total, logs := lg' @ [InfoTotal total]\<rparr>)
           = Some (Returned, w')"
    by (auto simp: google_drive_bulk_download_def split: option.splits)
  let ?w0 = "w\<lparr>progress_n := 0, progress_total := total, logs := lg' @ [InfoTotal total]\<rparr>"
  from walk_roots_accounts [OF walk] obtain evs where
    tot: "progress_total w' = progress_total ?w0" and
    lg: "logs w' = logs ?w0 @ evs" and
    acc: "quiet evs \<Longrightarrow> count_roots fuel drv ids acc lg0
            = Some (acc + (progress_n w' - progress_n ?w0), lg0)" for acc lg0
    by blast
  from q lg have "quiet evs" by simp
  from acc [OF this, of 0 "lg @ [InfoCounting]"] cnt
  have "total = progress_n w'" by simp
  with tot cnt ex show ?thesis by simp
qed

section \<open>Termination on acyclic drives\<close>

lemma count_loop_returns:
  assumes "\<And>f. f \<in> set cs \<Longrightarrow> mimeType f = folder_mime \<Longrightarrow>
             \<exists>k. \<forall>fuel\<ge>k. \<forall>lg. \<exists>r. count_files fuel drv (file_id f) lg = Some r"
  shows "\<exists>k. \<forall>fuel\<ge>k. \<forall>c lg. \<exists>r. count_loop (count_files fuel drv) cs c lg = Some r"
  using assms
proof (induction cs)
  case Nil
  then show ?case by simp
next
  case (Cons f cs)
  then obtain k where
    k: "\<forall>fuel\<ge>k. \<forall>c lg. \<exists>r. count_loop (count_files fuel drv) cs c lg = Some r"
    by auto
  show ?case
  proof (cases "mimeType f = folder_mime")
    case False
    with k have "\<forall>fuel\<ge>k. \<forall>c lg. \<exists>r. count_loop (count_files fuel drv) (f # cs) c lg = Some r"
      by simp
    then show ?thesis by blast
  next
    case True
    from Cons.prems [of f] True obtain k1 where
      k1: "\<forall>fuel\<ge>k1. \<forall>lg. \<exists>r. count_files fuel drv (file_id f) lg = Some r"
      by (meson list.set_intros(1))
    have "\<exists>r. count_loop (count_files fuel drv) (f # cs) c lg = Some r"
      if "fuel \<ge> max k k1" for fuel c lg
    proof -
      from that have ge: "fuel \<ge> k" "fuel \<ge> k1" by simp_all
      from ge(2) k1 obtain r1 where "count_files fuel drv (file_id f) lg = Some r1" by blast
      moreover obtain c1 lg1 where "r1 = (c1, lg1)" by (cases r1)
      moreover from ge(1) k obtain r where
        "count_loop (count_files fuel drv) cs (c + c1) lg1 = Some r" by blast
      ultimately show ?thesis using True by simp
    qed
    then show ?thesis by blast
  qed
qed

lemma count_files_returns:
  assumes "finite_below drv i"
  shows "\<exists>k. \<forall>fuel\<ge>k. \<forall>lg. \<exists>r. count_files fuel drv i lg = Some r"
  using assms
proof (induction rule: finite_below.induct)
  case (finite_belowI i)
  show ?case
  proof (cases "list_children drv i")
    case (Inl e)
    have "\<exists>r. count_files fuel drv i lg = Some r" if "fuel \<ge> 1" for fuel lg
      using that Inl by (cases fuel) auto
    then show ?thesis by blast
  next
    case (Inr cs)
    have "\<exists>k. \<forall>fuel\<ge>k. \<forall>c lg. \<exists>r. count_loop (count_files fuel drv) cs c lg = Some r"
      by (rule count_loop_returns) (use finite_belowI.IH Inr in blast)
    then obtain k where
      k: "\<forall>fuel\<ge>k. \<forall>c lg. \<exists>r. count_loop (count_files fuel drv) cs c lg = Some r"
      by blast
    have "\<exists>r. count_files fuel drv i lg = Some r" if "fuel \<ge> Suc k" for fuel lg
    proof -
      from that obtain fuel' where "fuel = Suc fuel'" "fuel' \<ge> k" by (cases fuel) auto
      with k Inr show ?thesis by simp
    qed
    then show ?thesis by blast
  qed
qed

lemma walk_children_returns:
  assumes "\<And>f. f \<in> set cs \<Longrightarrow> mimeType f = folder_mime \<Longrightarrow>
             \<exists>k. \<forall>fuel\<ge>k. \<forall>out w. \<exists>r. download_google_drive_folder fuel drv (file_id f) out w = Some r"
  shows "\<exists>k. \<forall>fuel\<ge>k. \<forall>dir w. \<exists>w'.
           walk_children (download_google_drive_folder fuel drv) drv dir cs w = Some w'"
  using assms
proof (induction cs)
  case Nil
  then show ?case by simp
next
  case (Cons f cs)
  then obtain k where
    k: "\<forall>fuel\<ge>k. \<forall>dir w. \<exists>w'.
           walk_children (download_google_drive_folder fuel drv) drv dir cs w = Some w'"
    by auto
  show ?case
  proof (cases "mimeType f = folder_mime")
    case False
    with k have "\<forall>fuel\<ge>k. \<forall>dir w. \<exists>w'.
           walk_children (download_google_drive_folder fuel drv) drv dir (f # cs) w = Some w'"
      by simp
    then show ?thesis by blast
  next
    case True
    from Cons.prems [of f] True obtain k1 where
      k1: "\<forall>fuel\<ge>k1. \<forall>out w. \<exists>r. download_google_drive_folder fuel drv (file_id f) out w = Some r"
      by (meson list.set_intros(1))
    have "\<exists>w'. walk_children (download_google_drive_folder fuel drv) drv dir (f # cs) w = Some w'"
      if "fuel \<ge> max k k1" for fuel dir w
    proof -
      from that have ge: "fuel \<ge> k" "fuel \<ge> k1" by simp_all
      from ge(2) k1 obtain r1 where
        r1: "download_google_drive_folder fuel drv (file_id f) dir w = Some r1" by blast
      obtain c1 w1 where r1': "r1 = (c1, w1)" by (cases r1)
      from ge(1) k have "\<exists>w'. walk_children (download_google_drive_folder fuel drv) drv dir cs w2
                             = Some w'" for w2
        by blast
      with r1 r1' True show ?thesis by (cases c1) auto
    qed
    then show ?thesis by blast
  qed
qed

lemma download_returns:
  assumes "finite_below drv i"
  shows "\<exists>k. \<forall>fuel\<ge>k. \<forall>out w. \<exists>r. download_google_drive_folder fuel drv i out w = Some r"
  using assms
proof (induction rule: finite_below.induct)
  case (finite_belowI i)
  show ?case
  proof (cases "list_children drv i")
    case (Inl e)
    have "\<exists>r. download_google_drive_folder fuel drv i out w = Some r" if "fuel \<ge> 1" for fuel out w
    proof -
      from that obtain fuel' where "fuel = Suc fuel'" by (cases fuel) auto
      with Inl show ?thesis by (auto split: sum.splits prod.splits simp: Let_def)
    qed
    then show ?thesis by blast
  next
    case (Inr cs)
    have "\<exists>k. \<forall>fuel\<ge>k. \<forall>dir w. \<exists>w'.
           walk_children (download_google_drive_folder fuel drv) drv dir cs w = Some w'"
      by (rule walk_children_returns) (use finite_belowI.IH Inr in blast)
    then obtain k where
      k: "\<forall>fuel\<ge>k. \<forall>dir w. \<exists>w'.
           walk_children (download_google_drive_folder fuel drv) drv dir cs w = Some w'"
      by blast
    have "\<exists>r. download_google_drive_folder fuel drv i out w = Some r" if "fuel \<ge> Suc k" for fuel out w
    proof -
      from that obtain fuel' where f: "fuel = Suc fuel'" "fuel' \<ge> k" by (cases fuel) auto
      with k have "\<exists>w'. walk_children (download_google_drive_folder fuel' drv) drv dir cs w2
                          = Some w'" for dir w2
        by blast
      with f Inr show ?thesis by (auto split: sum.splits prod.splits simp: Let_def)
    qed
    then show ?thesis by blast
  qed
qed

lemma count_roots_returns:
  assumes "\<And>i. i \<in> set ids \<Longrightarrow> finite_below drv i"
  shows "\<exists>k. \<forall>fuel\<ge>k. \<forall>acc lg. \<exists>r. count_roots fuel drv ids acc lg = Some r"
  using assms
proof (induction ids)
  case Nil
  then show ?case by simp
next
  case (Cons i ids)
  then obtain k where
    k: "\<forall>fuel\<ge>k. \<forall>acc lg. \<exists>r. count_roots fuel drv ids acc lg = Some r"
    by (meson list.set_intros(2))
  from Cons.prems [of i] have "finite_below drv i" by simp
  from count_files_returns [OF this] obtain k1 where
    k1: "\<forall>fuel\<ge>k1. \<forall>lg. \<exists>r. count_files fuel drv i lg = Some r" by blast
  have "\<exists>r. count_roots fuel drv (i # ids) acc lg = Some r" if "fuel \<ge> max k k1" for fuel acc lg
  proof -
    from that have ge: "fuel \<ge> k" "fuel \<ge> k1" by simp_all
    from ge(2) k1 obtain r1 where "count_files fuel drv i lg = Some r1" by blast
    moreover obtain c1 lg1 where "r1 = (c1, lg1)" by (cases r1)
    moreover from ge(1) k obtain r where
      "count_roots fuel drv ids (acc + c1) lg1 = Some r" by blast
    ultimately show ?thesis by simp
  qed
  then show ?case by blast
qed

lemma walk_roots_returns:
  assumes "\<And>i. i \<in> set ids \<Longrightarrow> finite_below drv i"
  shows "\<exists>k. \<forall>fuel\<ge>k. \<forall>out w. \<exists>r. walk_roots fuel drv ids out w = Some r"
  using assms
proof (induction ids)
  case Nil
  then show ?case by simp
next
  case (Cons i ids)
  then obtain k where
    k: "\<forall>fuel\<ge>k. \<forall>out w. \<exists>r. walk_roots fuel drv ids out w = Some r"
    by (meson list.set_intros(2))
  from Cons.prems [of i] have "finite_below drv i" by simp
  from download_returns [OF this] obtain k1 where
    k1: "\<forall>fuel\<ge>k1. \<forall>out w. \<exists>r. download_google_drive_folder fuel drv i out w = Some r"
    by blast
  have "\<exists>r. walk_roots fuel drv (i # ids) out w = Some r" if "fuel \<ge> max k k1" for fuel out w
  proof -
    from that have ge: "fuel \<ge> k" "fuel \<ge> k1" by simp_all
    from ge(2) k1 obtain r1 where
      r1: "download_google_drive_folder fuel drv i out w = Some r1" by blast
    obtain c1 w1 where r1': "r1 = (c1, w1)" by (cases r1)
    from ge(1) k obtain r where "walk_roots fuel drv ids out w1 = Some r" by blast
    with r1 r1' show ?thesis by (cases c1) auto
  qed
  then show ?case by blast
qed

lemma bulk_download_returns:
  assumes "\<forall>i. finite_below drv i"
  shows "\<exists>k. \<forall>fuel\<ge>k. \<exists>r. google_drive_bulk_download fuel (Inr drv) links out w = Some r"
proof -
  obtain ids lg where ex: "extract_folder_ids links (logs w @ [InfoAuthenticated]) = (ids, lg)"
    by (cases "extract_folder_ids links (logs w @ [InfoAuthenticated])")
  from assms obtain k1 where
    k1: "\<forall>fuel\<ge>k1. \<forall>acc lg. \<exists>r. count_roots fuel drv ids acc lg = Some r"
    using count_roots_returns [of ids drv] by blast
  from assms obtain k2 where
    k2: "\<forall>fuel\<ge>k2. \<forall>out w. \<exists>r. walk_roots fuel drv ids out w = Some r"
    using walk_roots_returns [of ids drv] by blast
  have "\<exists>r. google_drive_bulk_download fuel (Inr drv) links out w = Some r"
    if "fuel \<ge> max k1 k2" for fuel
  proof -
    from that have ge: "fuel \<ge> k1" "fuel \<ge> k2" by simp_all
    from ge(1) k1 obtain r1 where
      r1: "count_roots fuel drv ids 0 (lg @ [InfoCounting]) = Some r1" by blast
    obtain total lg' where r1': "r1 = (total, lg')" by (cases r1)
    from ge(2) k2 obtain r where
      "walk_roots fuel drv ids (parse_path out)
         (w\<lparr>progress_n := 0, progress_total := total, logs := lg' @ [InfoTotal total]\<rparr>) = Some r"
      by blast
    with ex r1 r1' show ?thesis by (simp add: google_drive_bulk_download_def)
  qed
  then show ?thesis by blast
qed

text \<open>
  Claim C5, amended: for every list of links and every acyclic drive the run returns
  (given fuel for the depth of the hierarchy); and whenever it returns normally without
  an error line in its log, that is when every listing, metadata and fetch operation and
  every local directory creation and file write succeeded, the total of the progress bar
  is the sum the counting pre-pass computed for the extracted roots, and the counter's
  final value equals it.
\<close>

theorem progress_reaches_total:
  assumes "\<forall>i. finite_below drv i"
  shows "\<exists>k. \<forall>fuel\<ge>k. \<exists>c w'.
           google_drive_bulk_download fuel (Inr drv) links out w = Some (c, w')
         \<and> (c = Returned \<and> quiet (logs w') \<longrightarrow>
              (\<exists>lg'. count_roots fuel drv
                        (fst (extract_folder_ids links (logs w @ [InfoAuthenticated]))) 0
                        (snd (extract_folder_ids links (logs w @ [InfoAuthenticated]))
                           @ [InfoCounting])
                      = Some (progress_total w', lg'))
              \<and> progress_n w' = progress_total w')"
proof -
  from bulk_download_returns [OF assms] obtain k where
    k: "\<forall>fuel\<ge>k. \<exists>r. google_drive_bulk_download fuel (Inr drv) links out w = Some r"
    by blast
  have "\<exists>c w'. google_drive_bulk_download fuel (Inr drv) links out w = Some (c, w')
         \<and> (c = Returned \<and> quiet (logs w') \<longrightarrow>
              (\<exists>lg'. count_roots fuel drv
                        (fst (extract_folder_ids links (logs w @ [InfoAuthenticated]))) 0
                        (snd (extract_folder_ids links (logs w @ [InfoAuthenticated]))
                           @ [InfoCounting])
                      = Some (progress_total w', lg'))
              \<and> progress_n w' = progress_total w')" if "fuel \<ge> k" for fuel
  proof -
    from that k obtain r where
      r: "google_drive_bulk_download fuel (Inr drv) links out w = Some r" by blast
    obtain c w' where r': "r = (c, w')" by (cases r)
    from r r' bulk_download_accounts [of fuel drv links out w w'] show ?thesis by blast
  qed
  then show ?thesis by blast
qed

lemma nested_drive_acyclic: "finite_below nested_drive i"
proof -
  have leaf: "finite_below nested_drive j" if "j \<noteq> ''R''" for j
  proof (rule finite_belowI)
    fix cs f
    assume "list_children nested_drive j = Inr cs" "f \<in> set cs" "mimeType f = folder_mime"
    with that have "False" by (auto simp: nested_drive_def example_defs split: if_splits)
    then show "finite_below nested_drive (file_id f)" ..
  qed
  show ?thesis
  proof (cases "i = ''R''")
    case False
    then show ?thesis by (rule leaf)
  next
    case True
    show ?thesis
    proof (rule finite_belowI)
      fix cs f
      assume "list_children nested_drive i = Inr cs" "f \<in> set cs" "mimeType f = folder_mime"
      with True have "file_id f = ''S''" by (auto simp: nested_drive_def example_defs)
      then show "finite_below nested_drive (file_id f)" by (simp add: leaf)
    qed
  qed
qed

text \<open>The theorem at a run over \<^verbatim>\<open>nested_drive\<close>: two files counted, two processed.\<close>

theorem progress_reaches_total_witness:
  "(\<forall>i. finite_below nested_drive i)
   \<and> (\<exists>w'. google_drive_bulk_download 2 (Inr nested_drive)
              (Some [''https://drive.google.com/drive/folders/R?usp=sharing\<newline>''])
              ''./out'' empty_world = Some (Returned, w')
          \<and> quiet (logs w') \<and> progress_total w' = 2 \<and> progress_n w' = 2)"
proof -
  let ?links = "Some [''https://drive.google.com/drive/folders/R?usp=sharing\<newline>'']"
  have acyclic: "\<forall>i. finite_below nested_drive i" by (simp add: nested_drive_acyclic)
  have run: "\<exists>w'. google_drive_bulk_download (Suc (Suc fuel)) (Inr nested_drive) ?links
                     ''./out'' empty_world = Some (Returned, w')
                 \<and> quiet (logs w') \<and> progress_total w' = 2" for fuel
    by (simp add: google_drive_bulk_download_def extract_folder_ids_def folder_id_of_line_def
        list_item_def folder_marker_def nested_drive_def example_defs path_defs walker_defs)
  from progress_reaches_total [OF acyclic, of ?links "''./out''" empty_world] obtain k where
    k: "\<forall>fuel\<ge>k. \<exists>c w'.
           google_drive_bulk_download fuel (Inr nested_drive) ?links ''./out'' empty_world
             = Some (c, w')
         \<and> (c = Returned \<and> quiet (logs w') \<longrightarrow>
              (\<exists>lg'. count_roots fuel nested_drive
                        (fst (extract_folder_ids ?links (logs empty_world @ [InfoAuthenticated]))) 0
                        (snd (extract_folder_ids ?links (logs empty_world @ [InfoAuthenticated]))
                           @ [InfoCounting])
                      = Some (progress_total w', lg'))
              \<and> progress_n w' = progress_total w')"
    by blast
  have "Suc (Suc k) \<ge> k" by simp
  with k obtain c w' where
    some: "google_drive_bulk_download (Suc (Suc k)) (Inr nested_drive) ?links ''./out'' empty_world
             = Some (c, w')" and
    eq: "c = Returned \<and> quiet (logs w') \<longrightarrow> progress_n w' = progress_total w'"
    by blast
  from run [of k] some have "c = Returned" "quiet (logs w')" "progress_total w' = 2" by auto
  with eq have reached: "progress_n w' = 2" by simp
  from run [of 0] obtain w2 where
    two: "google_drive_bulk_download 2 (Inr nested_drive) ?links ''./out'' empty_world
            = Some (Returned, w2)" "quiet (logs w2)" "progress_total w2 = 2"
    by (auto simp: numeral_2_eq_2)
  have "progress_n w2 = 2"
    using two(1)
    by (simp add: google_drive_bulk_download_def extract_folder_ids_def folder_id_of_line_def
        list_item_def folder_marker_def nested_drive_def example_defs path_defs walker_defs
        numeral_2_eq_2)
       auto
  with two acyclic show ?thesis by blast
qed

text \<open>
  Claim C5 as stated fails when a local operation fails although every remote one
  succeeds: in \<^verbatim>\<open>clash_drive\<close> a file and a folder of the same folder are both titled
  \<^verbatim>\<open>A\<close>. The file is downloaded first, \<^verbatim>\<open>mkdir\<close> for the folder then raises
  FileExistsError, the handler of line 145 logs it, the file below that folder is never
  processed, and the counter ends at 1 of 2.
\<close>

theorem name_clash_counterexample:
  "folder_title clash_drive ''R'' = Inr ''Reports'' \<and> folder_title clash_drive ''S'' = Inr ''A''
   \<and> list_children clash_drive ''R''
       = Inr [plain_file ''a'' ''A'' ''u1'', folder_entry ''S'' ''A'']
   \<and> list_children clash_drive ''S'' = Inr [plain_file ''x'' ''x.txt'' ''u2'']
   \<and> http_request clash_drive ''u1'' = Inr ''hello''
   \<and> http_request clash_drive ''u2'' = Inr ''world''
   \<and> map_option (\<lambda>(c, w'). (c, progress_n w', progress_total w', logs w'))
       (google_drive_bulk_download 2 (Inr clash_drive)
          (Some [''https://drive.google.com/drive/folders/R?usp=sharing\<newline>''])
          ''./out'' empty_world)
     = Some (Returned, 1, 2,
         [InfoAuthenticated, InfoCounting, InfoTotal 2, InfoProcessingFolder ''Reports'',
          InfoDownloaded ''A'', InfoProcessingFolder ''A'', ErrProcess ''A''])"
  by (simp add: google_drive_bulk_download_def extract_folder_ids_def folder_id_of_line_def
      list_item_def folder_marker_def clash_drive_def example_defs path_defs walker_defs
      numeral_2_eq_2)

end
